theory Spec2Isabelle
  imports Complex_Main "HOL-Library.AList"
begin

section \<open>Symbols, labels and the tokenizer of \<open>FST.tokenize_against_alphabet\<close>\<close>

text \<open>
  A symbol is a Python string; a label is a tuple of symbols. The alphabet of an
  automaton is a Python set of strings.
\<close>

type_synonym sym = string
type_synonym label = "sym list"

text \<open>Python's slice \<open>word[i:j]\<close> for \<open>0 \<le> i \<le> j\<close>.\<close>

definition slice :: "'a list \<Rightarrow> nat \<Rightarrow> nat \<Rightarrow> 'a list" where
  "slice xs i j = take (j - i) (drop i xs)"

text \<open>
  The inner \<open>for length in range(1, len(word) - start + 1)\<close> loop of
  \<open>tokenize_against_alphabet\<close>: every prefix of the rest of the word that is in the
  alphabet overwrites \<open>t\<close>, so the last (longest) one stays.
\<close>

definition longest_token :: "sym set \<Rightarrow> string \<Rightarrow> nat \<Rightarrow> string" where
  "longest_token alphabet word start =
     foldl (\<lambda>t len. if slice word start (start + len) \<in> alphabet
                     then slice word start (start + len) else t)
           [word ! start] [1 ..< length word - start + 1]"

lemma longest_token_fold_length:
  "1 \<le> length t \<Longrightarrow> 0 \<notin> set ls \<Longrightarrow> \<forall>l \<in> set ls. start + l \<le> length word \<Longrightarrow>
   1 \<le> length (foldl (\<lambda>t len. if slice word start (start + len) \<in> A
                               then slice word start (start + len) else t) t ls)"
  by (induction ls arbitrary: t) (auto simp: slice_def)

lemma longest_token_length:
  "start < length word \<Longrightarrow> 1 \<le> length (longest_token alphabet word start)"
  unfolding longest_token_def
  by (rule longest_token_fold_length) auto

function tokenize_loop :: "sym set \<Rightarrow> string \<Rightarrow> string list \<Rightarrow> nat \<Rightarrow> string list" where
  "tokenize_loop alphabet word tokens start =
     (if start < length word
      then tokenize_loop alphabet word (tokens @ [longest_token alphabet word start])
             (start + length (longest_token alphabet word start))
      else tokens)"
  by pat_completeness auto
termination
proof (relation "measure (\<lambda>(alphabet, word, tokens, start). length word - start)")
  show "wf (measure (\<lambda>(alphabet, word, tokens, start). length word - start))"
    by simp
next
  fix alphabet :: "sym set" and word :: string and tokens :: "string list" and start :: nat
  assume "start < length word"
  then show "((alphabet, word, tokens @ [longest_token alphabet word start],
               start + length (longest_token alphabet word start)),
              (alphabet, word, tokens, start))
             \<in> measure (\<lambda>(alphabet, word, tokens, start). length word - start)"
    using longest_token_length [of start word alphabet] by simp
qed

declare tokenize_loop.simps [simp del]

definition tokenize_against_alphabet :: "sym set \<Rightarrow> string \<Rightarrow> string list" where
  "tokenize_against_alphabet alphabet word = tokenize_loop alphabet word [] 0"

text \<open>The lengths at which a prefix of the rest of the word is an alphabet symbol.\<close>

definition matches :: "sym set \<Rightarrow> string \<Rightarrow> nat \<Rightarrow> nat set" where
  "matches A rest n = {l. 1 \<le> l \<and> l \<le> n \<and> take l rest \<in> A}"

section \<open>Weights\<close>

text \<open>
  Weights and costs are Python floats. They are modelled as the reals extended by
  \<open>float("inf")\<close>, the final weight that \<open>State.__init__\<close> gives a state by default;
  rounding, \<open>-inf\<close> and NaN are not modelled.
\<close>

datatype cost = Fin real | PInf

instantiation cost :: "{zero, plus, ord}"
begin

definition zero_cost :: cost where
  "zero_cost = Fin 0"

fun plus_cost :: "cost \<Rightarrow> cost \<Rightarrow> cost" where
  "plus_cost (Fin a) (Fin b) = Fin (a + b)"
| "plus_cost (Fin a) PInf = PInf"
| "plus_cost PInf b = PInf"

fun less_eq_cost :: "cost \<Rightarrow> cost \<Rightarrow> bool" where
  "less_eq_cost (Fin a) (Fin b) = (a \<le> b)"
| "less_eq_cost a PInf = True"
| "less_eq_cost PInf (Fin b) = False"

definition less_cost :: "cost \<Rightarrow> cost \<Rightarrow> bool" where
  "less_cost a b = (a \<le> b \<and> \<not> b \<le> a)"

instance ..

end

section \<open>The object store: states and transitions\<close>

text \<open>
  \<open>State\<close> and \<open>Transition\<close> objects are mutable and compared by identity (neither
  class defines \<open>__eq__\<close> or \<open>__hash__\<close>), so they live in an explicit store and are
  referred to by their identities. Every identity below the allocation counter is an
  allocated object; a constructor call takes the next identity.

  A Python \<open>set\<close> of objects is a duplicate-free list of identities: the order of the
  list stands for the iteration order of the set, which Python leaves unspecified.
  A \<open>dict\<close> is an association list in insertion order.
\<close>

type_synonym sid = nat
type_synonym tid = nat

record Transition =
  targetstate :: sid
  label :: label
  weight :: cost

type_synonym index = "(sym \<times> (label \<times> tid) list) list"

record State =
  transitions :: "(label \<times> tid list) list"
  cached_transitionsin :: "index option"
  cached_transitionsout :: "index option"
  finalweight :: cost
  name :: "string option"

record heap =
  state_of :: "sid \<Rightarrow> State"
  trans_of :: "tid \<Rightarrow> Transition"
  next_sid :: nat
  next_tid :: nat

datatype error = KeyError | IndexError

text \<open>\<open>s | t\<close> on sets, \<open>d.get(k, set())\<close> on a dict of sets, \<open>t[0]\<close> and \<open>t[-1]\<close> on a tuple.\<close>

definition set_union :: "'a list \<Rightarrow> 'a list \<Rightarrow> 'a list" where
  "set_union xs ys = xs @ filter (\<lambda>y. y \<notin> set xs) ys"

definition dict_get :: "('k \<times> 'v list) list \<Rightarrow> 'k \<Rightarrow> 'v list" where
  "dict_get d k = (case map_of d k of None \<Rightarrow> [] | Some v \<Rightarrow> v)"

definition first_sym :: "label \<Rightarrow> sym option" where
  "first_sym lbl = (case lbl of [] \<Rightarrow> None | x # _ \<Rightarrow> Some x)"

definition last_sym :: "label \<Rightarrow> sym option" where
  "last_sym lbl = (if lbl = [] then None else Some (last lbl))"

text \<open>\<open>Transition.__init__\<close> and \<open>State.__init__\<close>: a new object in the store.\<close>

definition Transition_init :: "sid \<Rightarrow> label \<Rightarrow> cost \<Rightarrow> heap \<Rightarrow> tid \<times> heap" where
  "Transition_init tgt lbl wt h =
     (next_tid h,
      h\<lparr>trans_of := (trans_of h)(next_tid h := \<lparr>targetstate = tgt, label = lbl, weight = wt\<rparr>),
        next_tid := Suc (next_tid h)\<rparr>)"

definition State_init :: "cost option \<Rightarrow> string option \<Rightarrow> heap \<Rightarrow> sid \<times> heap" where
  "State_init fw nm h =
     (next_sid h,
      h\<lparr>state_of := (state_of h)(next_sid h :=
            \<lparr>transitions = [], cached_transitionsin = None, cached_transitionsout = None,
             finalweight = (case fw of None \<Rightarrow> PInf | Some w \<Rightarrow> w), name = nm\<rparr>),
        next_sid := Suc (next_sid h)\<rparr>)"

definition update_state :: "sid \<Rightarrow> (State \<Rightarrow> State) \<Rightarrow> heap \<Rightarrow> heap" where
  "update_state s f h = h\<lparr>state_of := (state_of h)(s := f (state_of h s))\<rparr>"

text \<open>\<open>State.add_transition(self, other, label, weight)\<close>.\<close>

definition add_transition :: "sid \<Rightarrow> sid \<Rightarrow> label \<Rightarrow> cost \<Rightarrow> heap \<Rightarrow> heap" where
  "add_transition self other lbl wt h =
     (let (newtrans, h1) = Transition_init other lbl wt h
      in update_state self
           (\<lambda>st. st\<lparr>transitions :=
                      AList.update lbl (set_union (dict_get (transitions st) lbl) [newtrans])
                        (transitions st)\<rparr>) h1)"

text \<open>
  \<open>State.rename_label(self, original, new)\<close>. \<open>self.transitions[original]\<close> raises
  \<open>KeyError\<close> before anything is changed when the label has no bucket.
\<close>

definition set_label :: "label \<Rightarrow> heap \<Rightarrow> tid \<Rightarrow> heap" where
  "set_label new h t = h\<lparr>trans_of := (trans_of h)(t := (trans_of h t)\<lparr>label := new\<rparr>)\<rparr>"

definition rename_label :: "sid \<Rightarrow> label \<Rightarrow> label \<Rightarrow> heap \<Rightarrow> error + heap" where
  "rename_label self original new h =
     (case map_of (transitions (state_of h self)) original of
        None \<Rightarrow> Inl KeyError
      | Some bucket \<Rightarrow>
          Inr (update_state self
                 (\<lambda>st. st\<lparr>transitions :=
                            AList.delete original
                              (AList.update new
                                 (set_union (dict_get (transitions st) new) bucket)
                                 (transitions st))\<rparr>)
                 (foldl (set_label new) h bucket)))"

text \<open>\<open>State.remove_transitions_to_targets(self, targets)\<close>, with the loop that fills \<open>newt\<close>.\<close>

definition remove_step ::
  "heap \<Rightarrow> sid set \<Rightarrow> (label \<times> tid list) list \<Rightarrow> label \<times> tid list \<Rightarrow> (label \<times> tid list) list" where
  "remove_step h targets newt item =
     (let lbl = fst item;
          kept = filter (\<lambda>t. targetstate (trans_of h t) \<notin> targets) (snd item);
          newt1 = AList.update lbl kept newt
      in if length kept = 0 then AList.delete lbl newt1 else newt1)"

definition remove_transitions_to_targets :: "sid \<Rightarrow> sid set \<Rightarrow> heap \<Rightarrow> heap" where
  "remove_transitions_to_targets self targets h =
     update_state self
       (\<lambda>st. st\<lparr>transitions := foldl (remove_step h targets) [] (transitions st)\<rparr>) h"

text \<open>\<open>State.all_transitions(self)\<close>: the pairs the generator yields, in order.\<close>

definition all_transitions :: "heap \<Rightarrow> sid \<Rightarrow> (label \<times> tid) list" where
  "all_transitions h s =
     concat (map (\<lambda>(lbl, ts). map (\<lambda>t. (lbl, t)) ts) (transitions (state_of h s)))"

text \<open>
  The lazy indices \<open>State.transitionsin\<close> and \<open>State.transitionsout\<close>. The cache is set
  to an empty \<open>defaultdict(set)\<close> and then filled; \<open>label[0]\<close> (or \<open>label[-1]\<close>) raises
  \<open>IndexError\<close> on an empty tuple, which leaves the index filled so far in the cache.
  The result is the index with the error raised, if any.
\<close>

fun index_bucket ::
  "(label \<Rightarrow> sym option) \<Rightarrow> label \<Rightarrow> tid list \<Rightarrow> index \<Rightarrow> index \<times> error option" where
  "index_bucket key lbl [] idx = (idx, None)"
| "index_bucket key lbl (t # ts) idx =
     (case key lbl of
        None \<Rightarrow> (idx, Some IndexError)
      | Some k \<Rightarrow> index_bucket key lbl ts
                   (AList.update k (set_union (dict_get idx k) [(lbl, t)]) idx))"

fun index_build ::
  "(label \<Rightarrow> sym option) \<Rightarrow> (label \<times> tid list) list \<Rightarrow> index \<Rightarrow> index \<times> error option" where
  "index_build key [] idx = (idx, None)"
| "index_build key ((lbl, ts) # rest) idx =
     (case index_bucket key lbl ts idx of
        (idx1, Some e) \<Rightarrow> (idx1, Some e)
      | (idx1, None) \<Rightarrow> index_build key rest idx1)"

definition transitionsin :: "sid \<Rightarrow> heap \<Rightarrow> (index \<times> error option) \<times> heap" where
  "transitionsin self h =
     (case cached_transitionsin (state_of h self) of
        Some idx \<Rightarrow> ((idx, None), h)
      | None \<Rightarrow>
          (let r = index_build first_sym (transitions (state_of h self)) []
           in (r, update_state self (\<lambda>st. st\<lparr>cached_transitionsin := Some (fst r)\<rparr>) h)))"

definition transitionsout :: "sid \<Rightarrow> heap \<Rightarrow> (index \<times> error option) \<times> heap" where
  "transitionsout self h =
     (case cached_transitionsout (state_of h self) of
        Some idx \<Rightarrow> ((idx, None), h)
      | None \<Rightarrow>
          (let r = index_build last_sym (transitions (state_of h self)) []
           in (r, update_state self (\<lambda>st. st\<lparr>cached_transitionsout := Some (fst r)\<rparr>) h)))"

text \<open>A store with no object allocated yet, as a starting point for concrete runs.\<close>

definition empty_heap :: heap where
  "empty_heap =
     \<lparr>state_of = (\<lambda>_. \<lparr>transitions = [], cached_transitionsin = None,
                          cached_transitionsout = None, finalweight = PInf, name = None\<rparr>),
      trans_of = (\<lambda>_. \<lparr>targetstate = 0, label = [], weight = Fin 0\<rparr>),
      next_sid = 0, next_tid = 0\<rparr>"

text \<open>
  Two facts about the buckets of a state: every transition in a bucket is an allocated
  object, and every transition in the bucket of a label carries that label.
\<close>

definition buckets_allocated :: "heap \<Rightarrow> sid \<Rightarrow> bool" where
  "buckets_allocated h s =
     (\<forall>lbl b t. (lbl, b) \<in> set (transitions (state_of h s)) \<longrightarrow> t \<in> set b \<longrightarrow> t < next_tid h)"

definition labels_agree :: "heap \<Rightarrow> sid \<Rightarrow> bool" where
  "labels_agree h s =
     (\<forall>lbl b t. (lbl, b) \<in> set (transitions (state_of h s)) \<longrightarrow> t \<in> set b \<longrightarrow>
        label (trans_of h t) = lbl)"

section \<open>The automaton and its traversal \<open>FST.apply\<close>\<close>

record FST =
  alphabet :: "sym set"
  initialstate :: sid
  states :: "sid set"
  finalstates :: "sid set"

text \<open>
  \<open>FST.__init__(self, label, weight, alphabet)\<close>: one state, or with a label a second,
  final state and the one transition between them; the label \<open>('',)\<close> makes the
  initial state final instead.
\<close>

definition FST_init :: "label option \<Rightarrow> cost \<Rightarrow> sym set \<Rightarrow> heap \<Rightarrow> FST \<times> heap" where
  "FST_init lbl wt alph h =
     (let (s0, h1) = State_init None None h;
          self = \<lparr>alphabet = alph, initialstate = s0, states = {s0}, finalstates = {}\<rparr>
      in if lbl = Some [''''] then
           (self\<lparr>finalstates := insert s0 (finalstates self)\<rparr>,
            update_state s0 (\<lambda>st. st\<lparr>finalweight := wt\<rparr>) h1)
         else (case lbl of
             None \<Rightarrow> (self, h1)
           | Some l \<Rightarrow>
               (let (targetstate, h2) = State_init None None h1;
                    h3 = update_state targetstate (\<lambda>st. st\<lparr>finalweight := wt\<rparr>) h2
                in (self\<lparr>alphabet := set l, states := insert targetstate (states self),
                         finalstates := {targetstate}\<rparr>,
                    add_transition s0 targetstate l 0 h3))))"

text \<open>
  The flag-diacritic module \<open>pyfoma.flag\<close> is not part of the sources at hand. Its
  three entry points used by \<open>apply\<close> are parameters of the model:
  \<open>FlagOp.is_flag\<close>, the filter object \<open>FlagStringFilter(alphabet)\<close> applied to an
  output, and \<open>FlagOp.filter_flags\<close>.
\<close>

record flagops =
  is_flag :: "sym \<Rightarrow> bool"
  flag_filter :: "sym set \<Rightarrow> sym list \<Rightarrow> bool"
  filter_flags :: "sym list \<Rightarrow> sym list"

text \<open>The keyword arguments of \<open>apply\<close>.\<close>

record options =
  inverse :: bool
  weights :: bool
  tokenize_outputs :: bool
  obey_flags :: bool
  print_flags :: bool

text \<open>
  An entry of the priority queue is the tuple
  \<open>(cost, negpos, counter, output, state)\<close>, with \<open>None\<close> for the state of a finished
  path. What \<open>apply\<close> yields is a string or a token list, with the cost when
  \<open>weights\<close> is set.
\<close>

type_synonym qitem = "cost \<times> int \<times> nat \<times> sym list \<times> sid option"

datatype yielded = Str string | Toks "sym list"

type_synonym result = "yielded \<times> cost option"

text \<open>
  \<open>heapq\<close> is the standard library. Its contract is modelled, not its array layout:
  the queue is the list of its entries, \<open>heappush\<close> adds an entry, and \<open>heappop\<close>
  takes out the smallest entry. Python compares the tuples lexicographically; the
  counter of every entry is different, so the comparison is decided by
  \<open>(cost, negpos, counter)\<close> and never looks at the output or the state.
\<close>

definition item_less :: "qitem \<Rightarrow> qitem \<Rightarrow> bool" where
  "item_less a b =
     (case (a, b) of ((c1, n1, k1, _), (c2, n2, k2, _)) \<Rightarrow>
        c1 < c2 \<or> (c1 = c2 \<and> (n1 < n2 \<or> (n1 = n2 \<and> k1 < k2))))"

definition heappush :: "qitem list \<Rightarrow> qitem \<Rightarrow> qitem list" where
  "heappush Q x = Q @ [x]"

definition smallest :: "qitem \<Rightarrow> qitem list \<Rightarrow> qitem" where
  "smallest x xs = foldl (\<lambda>m y. if item_less y m then y else m) x xs"

definition heappop :: "qitem list \<Rightarrow> qitem \<times> qitem list" where
  "heappop Q = (smallest (hd Q) (tl Q), remove1 (smallest (hd Q) (tl Q)) Q)"

text \<open>\<open>lbl[IN]\<close> and \<open>lbl[OUT]\<close> with \<open>IN, OUT = [-1, 0] if inverse else [0, -1]\<close>.\<close>

definition label_in :: "bool \<Rightarrow> label \<Rightarrow> sym option" where
  "label_in invs lbl = (if invs then last_sym lbl else first_sym lbl)"

definition label_out :: "bool \<Rightarrow> label \<Rightarrow> sym option" where
  "label_out invs lbl = (if invs then first_sym lbl else last_sym lbl)"

text \<open>
  The body of \<open>for lbl, t in state.all_transitions()\<close> for one transition. The state of
  the search is the queue and the next value of the counter \<open>cntr\<close>. An empty label
  tuple raises \<open>IndexError\<close> at \<open>lbl[IN]\<close>.
\<close>

type_synonym search = "qitem list \<times> nat"

definition follow ::
  "flagops \<Rightarrow> FST \<Rightarrow> heap \<Rightarrow> bool \<Rightarrow> sym list \<Rightarrow> cost \<Rightarrow> int \<Rightarrow> sym list \<Rightarrow>
   search \<Rightarrow> label \<times> tid \<Rightarrow> error + search" where
  "follow fo self h invs w cost negpos out qc lt =
     (case (label_in invs (fst lt), label_out invs (fst lt)) of
        (Some i, Some ou) \<Rightarrow>
          (let t = trans_of h (snd lt); Q = fst qc; cntr = snd qc
           in if i = '''' \<or> is_flag fo i then
                Inr (heappush Q (cost + weight t, negpos, cntr, out @ [ou], Some (targetstate t)),
                     Suc cntr)
              else if - negpos < int (length w) then
                (let cur = w ! nat (- negpos);
                     nextsym = (if cur \<in> alphabet self then cur else ''.'');
                     appendedsym = (if nextsym = ''.'' \<and> ou = ''.'' then cur else ou)
                 in if nextsym = i then
                      Inr (heappush Q (cost + weight t, negpos - 1, cntr, out @ [appendedsym],
                                       Some (targetstate t)),
                           Suc cntr)
                    else Inr qc)
              else Inr qc)
      | _ \<Rightarrow> Inl IndexError)"

fun follow_all ::
  "flagops \<Rightarrow> FST \<Rightarrow> heap \<Rightarrow> bool \<Rightarrow> sym list \<Rightarrow> cost \<Rightarrow> int \<Rightarrow> sym list \<Rightarrow>
   search \<Rightarrow> (label \<times> tid) list \<Rightarrow> error + search" where
  "follow_all fo self h invs w cost negpos out qc [] = Inr qc"
| "follow_all fo self h invs w cost negpos out qc (lt # lts) =
     (case follow fo self h invs w cost negpos out qc lt of
        Inl e \<Rightarrow> Inl e
      | Inr qc1 \<Rightarrow> follow_all fo self h invs w cost negpos out qc1 lts)"

text \<open>
  One turn of \<open>while Q\<close>. The loop ends when the queue is empty; otherwise the turn
  yields a result, goes on silently, or raises. A yield is recorded together with the
  queue entry it comes from.
\<close>

datatype turn = Stop | Yield qitem result search | Continue search | Raise error

definition make_result :: "flagops \<Rightarrow> options \<Rightarrow> cost \<Rightarrow> sym list \<Rightarrow> result" where
  "make_result fo opts cost out =
     (let out1 = (if \<not> print_flags opts then filter_flags fo out else out);
          yield_output = (if \<not> tokenize_outputs opts then Str (concat out1) else Toks out1)
      in if \<not> weights opts then (yield_output, None) else (yield_output, Some cost))"

definition apply_turn ::
  "flagops \<Rightarrow> FST \<Rightarrow> heap \<Rightarrow> options \<Rightarrow> sym list \<Rightarrow> search \<Rightarrow> turn" where
  "apply_turn fo self h opts w qc =
     (if fst qc = [] then Stop
      else (case heappop (fst qc) of
        ((cost, negpos, k, out, state), Q1) \<Rightarrow>
          if state = None \<and> - negpos = int (length w) \<and>
             (\<not> obey_flags opts \<or> flag_filter fo (alphabet self) out)
          then Yield (cost, negpos, k, out, state) (make_result fo opts cost out) (Q1, snd qc)
          else (case state of
              None \<Rightarrow> Continue (Q1, snd qc)
            | Some s \<Rightarrow>
                (let qc1 = (if s \<in> finalstates self
                            then (heappush Q1 (cost + finalweight (state_of h s), negpos, snd qc,
                                               out, None),
                                  Suc (snd qc))
                            else (Q1, snd qc))
                 in (case follow_all fo self h (inverse opts) w cost negpos out qc1
                            (all_transitions h s) of
                       Inl e \<Rightarrow> Raise e
                     | Inr qc2 \<Rightarrow> Continue qc2)))))"

text \<open>
  The generator, run for at most \<open>n\<close> turns of its loop: the yields so far, and whether
  the generator is exhausted, has raised, or is still running (with its search state).
\<close>

datatype outcome = Exhausted | Raised error | Running search

fun apply_run ::
  "flagops \<Rightarrow> FST \<Rightarrow> heap \<Rightarrow> options \<Rightarrow> sym list \<Rightarrow> nat \<Rightarrow> search \<Rightarrow>
   (qitem \<times> result) list \<times> outcome" where
  "apply_run fo self h opts w 0 qc = ([], Running qc)"
| "apply_run fo self h opts w (Suc n) qc =
     (case apply_turn fo self h opts w qc of
        Stop \<Rightarrow> ([], Exhausted)
      | Raise e \<Rightarrow> ([], Raised e)
      | Continue qc1 \<Rightarrow> apply_run fo self h opts w n qc1
      | Yield x r qc1 \<Rightarrow>
          (case apply_run fo self h opts w n qc1 of (ys, oc) \<Rightarrow> ((x, r) # ys, oc)))"

definition FST_apply ::
  "flagops \<Rightarrow> FST \<Rightarrow> heap \<Rightarrow> options \<Rightarrow> string \<Rightarrow> nat \<Rightarrow> (qitem \<times> result) list \<times> outcome" where
  "FST_apply fo self h opts word n =
     apply_run fo self h opts (tokenize_against_alphabet (alphabet self) word) n
       ([(0, 0, 0, [], Some (initialstate self))], 1)"

text \<open>\<open>generate\<close> and \<open>analyze\<close> pass their arguments on with \<open>inverse\<close> fixed.\<close>

definition generate ::
  "flagops \<Rightarrow> FST \<Rightarrow> heap \<Rightarrow> options \<Rightarrow> string \<Rightarrow> nat \<Rightarrow> (qitem \<times> result) list \<times> outcome" where
  "generate fo self h opts word n = FST_apply fo self h (opts\<lparr>inverse := False\<rparr>) word n"

definition analyze ::
  "flagops \<Rightarrow> FST \<Rightarrow> heap \<Rightarrow> options \<Rightarrow> string \<Rightarrow> nat \<Rightarrow> (qitem \<times> result) list \<times> outcome" where
  "analyze fo self h opts word n = FST_apply fo self h (opts\<lparr>inverse := True\<rparr>) word n"

text \<open>The results a caller sees, without the queue entries.\<close>

definition results :: "(qitem \<times> result) list \<times> outcome \<Rightarrow> result list" where
  "results r = map snd (fst r)"

text \<open>
  For concrete runs: a flag module for automata without flag diacritics (no symbol is a
  flag, every output passes the filter, nothing is stripped), and the default keyword
  arguments of \<open>generate\<close>, \<open>analyze\<close> and \<open>apply\<close>.
\<close>

definition no_flags :: flagops where
  "no_flags = \<lparr>is_flag = (\<lambda>_. False), flag_filter = (\<lambda>_ _. True), filter_flags = (\<lambda>out. out)\<rparr>"

definition default_options :: options where
  "default_options =
     \<lparr>inverse = False, weights = False, tokenize_outputs = False, obey_flags = True,
      print_flags = False\<rparr>"

text \<open>The components of a queue entry.\<close>

definition item_cost :: "qitem \<Rightarrow> cost" where
  "item_cost x = fst x"

definition item_negpos :: "qitem \<Rightarrow> int" where
  "item_negpos x = fst (snd x)"

definition item_counter :: "qitem \<Rightarrow> nat" where
  "item_counter x = fst (snd (snd x))"

definition item_output :: "qitem \<Rightarrow> sym list" where
  "item_output x = fst (snd (snd (snd x)))"

definition item_state :: "qitem \<Rightarrow> sid option" where
  "item_state x = snd (snd (snd (snd x)))"

text \<open>
  The states of the automaton: the initial state and every state that is the target of
  a transition of such a state. \<open>apply\<close> never looks at \<open>self.states\<close>; these are the
  states its search can come to.
\<close>

inductive reachable :: "FST \<Rightarrow> heap \<Rightarrow> sid \<Rightarrow> bool" for self :: FST and h :: heap where
  initial: "reachable self h (initialstate self)"
| target: "reachable self h s \<Longrightarrow> lt \<in> set (all_transitions h s) \<Longrightarrow>
           reachable self h (targetstate (trans_of h (snd lt)))"

text \<open>
  The convention that weights are not negative: no transition of a state of the
  automaton has a negative weight, and no final state of the automaton has a negative
  final weight. Other objects in the store do not matter.
\<close>

definition nonneg_weights :: "FST \<Rightarrow> heap \<Rightarrow> bool" where
  "nonneg_weights self h =
     ((\<forall>s lt. reachable self h s \<and> lt \<in> set (all_transitions h s) \<longrightarrow>
         0 \<le> weight (trans_of h (snd lt))) \<and>
      (\<forall>s. reachable self h s \<and> s \<in> finalstates self \<longrightarrow> 0 \<le> finalweight (state_of h s)))"

text \<open>
  For the properties of the traversal: the counters of the queue entries are all
  different and below the next counter value; and an entry is pushed from another when
  its cost is that entry's cost plus the final weight of its state or the weight of one
  of the state's transitions.
\<close>

definition counters_ok :: "search \<Rightarrow> bool" where
  "counters_ok qc =
     (distinct (map item_counter (fst qc)) \<and> (\<forall>e \<in> set (fst qc). item_counter e < snd qc))"

definition pushed_by :: "FST \<Rightarrow> heap \<Rightarrow> qitem \<Rightarrow> qitem \<Rightarrow> bool" where
  "pushed_by A h m e =
     (\<exists>s wt. item_state m = Some s \<and> item_cost e = item_cost m + wt \<and>
        ((s \<in> finalstates A \<and> wt = finalweight (state_of h s)) \<or>
         (\<exists>lt \<in> set (all_transitions h s). wt = weight (trans_of h (snd lt)))))"



text \<open>
  Accepting paths, for the statement of the order of the results. A point on a path
  through the automaton is the accumulated cost, the negated input position, the output
  so far and the current state (\<open>None\<close> once the path has stopped at a final state).
  \<open>trans_step\<close> is one transition taken from such a point: a transition whose
  consuming symbol is epsilon or a flag consumes nothing; any other transition consumes
  the next token, which is read as the wildcard \<open>"."\<close> when it is not in the alphabet.
  \<open>path_step\<close> is one step of a path: stopping at a final state, or a transition of
  the current state. An accepting path for the tokens \<open>w\<close> leads from the initial
  state to a stopped point with all of \<open>w\<close> consumed and an output the flag filter lets
  through.
\<close>

type_synonym config = "cost \<times> int \<times> sym list \<times> sid option"

definition item_config :: "qitem \<Rightarrow> config" where
  "item_config x = (item_cost x, item_negpos x, item_output x, item_state x)"

inductive trans_step ::
  "flagops \<Rightarrow> FST \<Rightarrow> heap \<Rightarrow> bool \<Rightarrow> sym list \<Rightarrow> label \<times> tid \<Rightarrow>
   cost \<times> int \<times> sym list \<Rightarrow> config \<Rightarrow> bool"
  for fo :: flagops and self :: FST and h :: heap and invs :: bool and w :: "sym list" where
  silent:
    "label_in invs lbl = Some i \<Longrightarrow> label_out invs lbl = Some ou \<Longrightarrow>
     i = '''' \<or> is_flag fo i \<Longrightarrow>
     trans_step fo self h invs w (lbl, t) (c, np, out)
       (c + weight (trans_of h t), np, out @ [ou], Some (targetstate (trans_of h t)))"
| consume:
    "label_in invs lbl = Some i \<Longrightarrow> label_out invs lbl = Some ou \<Longrightarrow>
     \<not> (i = '''' \<or> is_flag fo i) \<Longrightarrow> - np < int (length w) \<Longrightarrow>
     (if w ! nat (- np) \<in> alphabet self then w ! nat (- np) else ''.'') = i \<Longrightarrow>
     trans_step fo self h invs w (lbl, t) (c, np, out)
       (c + weight (trans_of h t), np - 1,
        out @ [if i = ''.'' \<and> ou = ''.'' then w ! nat (- np) else ou],
        Some (targetstate (trans_of h t)))"

inductive path_step ::
  "flagops \<Rightarrow> FST \<Rightarrow> heap \<Rightarrow> bool \<Rightarrow> sym list \<Rightarrow> config \<Rightarrow> config \<Rightarrow> bool"
  for fo :: flagops and self :: FST and h :: heap and invs :: bool and w :: "sym list" where
  stop:
    "s \<in> finalstates self \<Longrightarrow>
     path_step fo self h invs w (c, np, out, Some s)
       (c + finalweight (state_of h s), np, out, None)"
| move:
    "lt \<in> set (all_transitions h s) \<Longrightarrow> trans_step fo self h invs w lt (c, np, out) cfg \<Longrightarrow>
     path_step fo self h invs w (c, np, out, Some s) cfg"

definition accepting_path ::
  "flagops \<Rightarrow> FST \<Rightarrow> heap \<Rightarrow> options \<Rightarrow> sym list \<Rightarrow> cost \<Rightarrow> sym list \<Rightarrow> bool" where
  "accepting_path fo self h opts w c out =
     (rtranclp (path_step fo self h (inverse opts) w)
        (0, 0, [], Some (initialstate self)) (c, - int (length w), out, None) \<and>
      (\<not> obey_flags opts \<or> flag_filter fo (alphabet self) out))"

text \<open>
  An automaton with two paths for the word \<open>"a"\<close>: from the initial state 0 a
  transition \<open>a:x\<close> of weight \<open>w1\<close> to the final state 1 (final weight \<open>f1\<close>),
  added first, and a transition \<open>a:y\<close> of weight \<open>w2\<close> to the final state 2 (final
  weight \<open>f2\<close>).
\<close>

definition two_paths_heap :: "cost \<Rightarrow> cost \<Rightarrow> cost \<Rightarrow> cost \<Rightarrow> heap" where
  "two_paths_heap w1 f1 w2 f2 =
     add_transition 0 2 [''a'', ''y''] w2
       (add_transition 0 1 [''a'', ''x''] w1
          (snd (State_init (Some f2) None (snd (State_init (Some f1) None
             (snd (State_init None None empty_heap)))))))"

definition two_paths_fst :: FST where
  "two_paths_fst =
     \<lparr>alphabet = {''a'', ''x'', ''y''}, initialstate = 0, states = {0, 1, 2},
      finalstates = {1, 2}\<rparr>"

text \<open>
  The same automaton in a store that also holds a state of another automaton, with a
  transition of negative weight to itself.
\<close>

definition two_paths_beside_heap :: "cost \<Rightarrow> cost \<Rightarrow> cost \<Rightarrow> cost \<Rightarrow> heap" where
  "two_paths_beside_heap w1 f1 w2 f2 =
     add_transition 3 3 [''a''] (Fin (- 1))
       (snd (State_init None None (two_paths_heap w1 f1 w2 f2)))"

section \<open>The right-linear grammar compiler \<open>FST.rlg\<close>\<close>

text \<open>
  The tokenizer \<open>_rlg_tokenize\<close> scans with \<open>re.finditer\<close> and the pattern
  \<open>'(?P<multi>'|(?:\\'|[^'])*)'|\\(?P<esc>(.))|(?P<single>(.))\<close>. The scanner below is
  that pattern written out: \<open>quoted_body\<close> is \<open>(?:\\'|[^'])*'\<close> after an opening
  quote, with the backtracking of the regular expression engine (an escaped quote
  closes the string when no later quote does); \<open>.\<close> matches every character but the
  newline, and a position where nothing matches is skipped.
\<close>

definition quote :: char where
  "quote = CHR 0x27"

definition backslash :: char where
  "backslash = CHR 0x5C"

definition newline :: char where
  "newline = CHR 0x0A"

fun quoted_body :: "string \<Rightarrow> (string \<times> string) option" where
  "quoted_body [] = None"
| "quoted_body (c # s) =
     (if c = backslash \<and> take 1 s = [quote] then
        (case quoted_body (tl s) of
           Some (b, r) \<Rightarrow> Some (backslash # quote # b, r)
         | None \<Rightarrow> Some ([backslash], tl s))
      else if c = quote then Some ([], s)
      else (case quoted_body s of Some (b, r) \<Rightarrow> Some (c # b, r) | None \<Rightarrow> None))"

text \<open>\<open>token.replace(r"\'", "'")\<close> and \<open>sym.replace("'", r"\'")\<close>.\<close>

fun unescape_quotes :: "string \<Rightarrow> string" where
  "unescape_quotes [] = []"
| "unescape_quotes (c # s) =
     (if c = backslash \<and> take 1 s = [quote] then quote # unescape_quotes (tl s)
      else c # unescape_quotes s)"

definition escape_quotes :: "string \<Rightarrow> string" where
  "escape_quotes smb = concat (map (\<lambda>c. if c = quote then [backslash, quote] else [c]) smb)"

text \<open>
  One match of the token pattern at the start of a non-empty string: the token (after
  the replacements \<open>_rlg_tokenize\<close> makes) and the rest of the string.
\<close>

definition match_token :: "char \<Rightarrow> string \<Rightarrow> (string \<times> string) option" where
  "match_token c s =
     (if c = quote then
        (if take 2 s = [quote, quote] then Some ([quote], drop 2 s)
         else (case quoted_body s of
                 Some (b, r) \<Rightarrow> Some (unescape_quotes b, r)
               | None \<Rightarrow> Some ([quote], s)))
      else if c = backslash then
        (case s of
           [] \<Rightarrow> Some ([backslash], [])
         | d # r \<Rightarrow> if d \<noteq> newline then Some ([d], r) else Some ([backslash], s))
      else if c = newline then None
      else Some (if c = CHR '' '' then [] else [c], s))"

lemma quoted_body_shorter: "quoted_body s = Some (b, r) \<Longrightarrow> length r < length s"
proof (induction s arbitrary: b r rule: quoted_body.induct)
  case 1
  then show ?case by simp
next
  case (2 c s)
  show ?case
  proof (cases "c = backslash \<and> take 1 s = [quote]")
    case True
    then show ?thesis
      using 2(1) [OF True] 2(3) by (cases s) (auto split: option.splits)
  next
    case False
    then show ?thesis
      using 2(2) 2(3) by (auto split: option.splits if_splits)
  qed
qed

lemma match_token_shorter: "match_token c s = Some (tok, r) \<Longrightarrow> length r \<le> length s"
  by (auto simp: match_token_def split: if_splits option.splits list.splits
      dest: quoted_body_shorter)

function rlg_scan :: "string \<Rightarrow> string list" where
  "rlg_scan [] = []"
| "rlg_scan (c # s) =
     (case match_token c s of
        None \<Rightarrow> rlg_scan s
      | Some (tok, r) \<Rightarrow> tok # rlg_scan r)"
  by pat_completeness auto
termination
proof (relation "measure length")
  show "wf (measure length)" by simp
next
  fix c :: char and s :: string
  show "(s, c # s) \<in> measure length" by simp
next
  fix c :: char and s x2 x y :: string and p :: "string \<times> string"
  assume "match_token c s = Some p" and "(x, y) = p"
  then have "match_token c s = Some (x, y)" by simp
  then show "(y, c # s) \<in> measure length"
    using match_token_shorter [of c s x y] by simp
qed

text \<open>
  With \<open>multichar_symbols\<close>, the string first goes through
  \<open>_multichar_matcher(multichar_symbols).sub(_multichar_replacer, w)\<close>: a quoted run
  stays as it is, and an unquoted symbol of more than one character (the longest first)
  is put into quotes; with no such symbol the second alternative of the pattern is
  empty and matches at every position, which inserts \<open>''\<close> there.
\<close>

definition ordered_symbols :: "string list \<Rightarrow> string list" where
  "ordered_symbols multichar_symbols =
     sort_key (\<lambda>smb. - int (length smb)) (filter (\<lambda>smb. length smb > 1) multichar_symbols)"

lemma ordered_symbols_long: "smb \<in> set (ordered_symbols syms) \<Longrightarrow> 1 < length smb"
  by (simp add: ordered_symbols_def)

function multichar_sub :: "string list \<Rightarrow> string \<Rightarrow> string" where
  "multichar_sub syms w =
     (if w = [] then (if ordered_symbols syms = [] then [quote, quote] else [])
      else (case (if hd w = quote then quoted_body (tl w) else None) of
          Some (b, r) \<Rightarrow> quote # b @ [quote] @ multichar_sub syms r
        | None \<Rightarrow>
            (case find (\<lambda>smb. take (length smb) w = smb) (ordered_symbols syms) of
               Some smb \<Rightarrow>
                 quote # escape_quotes smb @ [quote] @ multichar_sub syms (drop (length smb) w)
             | None \<Rightarrow>
                 (if ordered_symbols syms = [] then [quote, quote] else []) @
                 hd w # multichar_sub syms (tl w))))"
  by pat_completeness auto
termination
proof (relation "measure (\<lambda>(syms, w). length w)")
  show "wf (measure (\<lambda>(syms, w). length w))" by simp
next
  fix syms :: "string list" and w b r :: string and p :: "string \<times> string"
  assume "w \<noteq> []" and "(if hd w = quote then quoted_body (tl w) else None) = Some p"
    and "(b, r) = p"
  then have "quoted_body (tl w) = Some (b, r)" by (auto split: if_splits)
  then have "length r < length (tl w)" by (rule quoted_body_shorter)
  then show "((syms, r), (syms, w)) \<in> measure (\<lambda>(syms, w). length w)" by simp
next
  fix syms :: "string list" and w smb :: string
  assume w: "w \<noteq> []"
    and "find (\<lambda>smb. take (length smb) w = smb) (ordered_symbols syms) = Some smb"
  then have "smb \<in> set (ordered_symbols syms)"
    by (auto simp: find_Some_iff)
  then have "1 < length smb" by (rule ordered_symbols_long)
  moreover have "0 < length w" using w by simp
  ultimately have "length w - length smb < length w" by arith
  then show "((syms, drop (length smb) w), (syms, w)) \<in> measure (\<lambda>(syms, w). length w)"
    by simp
next
  fix syms :: "string list" and w :: string
  assume "w \<noteq> []"
  then show "((syms, tl w), (syms, w)) \<in> measure (\<lambda>(syms, w). length w)" by simp
qed

declare rlg_scan.simps [simp del] multichar_sub.simps [simp del]

definition rlg_tokenize :: "string list option \<Rightarrow> string \<Rightarrow> sym list" where
  "rlg_tokenize multichar_symbols w =
     (if w = [] then [[]]
      else rlg_scan (case multichar_symbols of
                       None \<Rightarrow> w
                     | Some syms \<Rightarrow> multichar_sub syms w))"

text \<open>
  A grammar is a dict from the name of a rule-set to its rules. A rule is the tuple
  \<open>(lhs, target)\<close> or \<open>(lhs, target, weight)\<close>, where \<open>lhs\<close> is a string or a
  tuple of strings. \<open>statedict\<close> has one new named state for every key of the grammar
  and for \<open>"#"\<close>.
\<close>

datatype lhs = Bare string | Tuple "string list"

datatype rule = Rule lhs string "cost option"

type_synonym grammar = "(string \<times> rule list) list"

fun make_states :: "string list \<Rightarrow> heap \<Rightarrow> (string \<times> sid) list \<times> heap" where
  "make_states [] h = ([], h)"
| "make_states (nm # nms) h =
     (case State_init None (Some nm) h of
        (s, h1) \<Rightarrow> (case make_states nms h1 of (d, h2) \<Rightarrow> ((nm, s) # d, h2)))"

text \<open>
  \<open>itertools.zip_longest(i, o, range(max(len(i), len(o))), fillvalue='')\<close>: both token
  lists filled with \<open>''\<close> at the end, paired with the position.
\<close>

definition pad :: "nat \<Rightarrow> sym list \<Rightarrow> sym list" where
  "pad n xs = xs @ replicate (n - length xs) ''''"

definition positions :: "sym list \<Rightarrow> sym list \<Rightarrow> (sym \<times> sym \<times> nat) list" where
  "positions i ou =
     zip (pad (max (length i) (length ou)) i)
       (zip (pad (max (length i) (length ou)) ou) [0 ..< max (length i) (length ou)])"

definition newtuple :: "sym \<Rightarrow> sym \<Rightarrow> label" where
  "newtuple ii oo = (if ii = oo then [ii] else [ii, oo])"

text \<open>
  The loop over the positions of one rule: the last position goes to
  \<open>statedict[target]\<close> (a \<open>KeyError\<close> when the name has no state) with the weight of
  the rule, every other position to a new state with weight 0.
\<close>

fun rlg_chain ::
  "(string \<times> sid) list \<Rightarrow> string \<Rightarrow> cost option \<Rightarrow> nat \<Rightarrow> (sym \<times> sym \<times> nat) list \<Rightarrow>
   sid \<Rightarrow> FST \<times> heap \<Rightarrow> error + FST \<times> heap" where
  "rlg_chain statedict target wt n [] currstate fh = Inr fh"
| "rlg_chain statedict target wt n ((ii, oo, idx) # rest) currstate fh =
     (if idx = n - 1 then
        (case map_of statedict target of
           None \<Rightarrow> Inl KeyError
         | Some tgt \<Rightarrow>
             rlg_chain statedict target wt n rest tgt
               (fst fh,
                add_transition currstate tgt (newtuple ii oo)
                  (case wt of None \<Rightarrow> 0 | Some x \<Rightarrow> x) (snd fh)))
      else
        (case State_init None None (snd fh) of
           (tgt, h1) \<Rightarrow>
             rlg_chain statedict target wt n rest tgt
               ((fst fh)\<lparr>states := insert tgt (states (fst fh))\<rparr>,
                add_transition currstate tgt (newtuple ii oo) 0 h1)))"

text \<open>
  The token lists \<open>i\<close> and \<open>o\<close> of a rule; \<open>lhs[0]\<close> raises \<open>IndexError\<close> on an
  empty tuple. Then the body of \<open>for rule in grammar[lexstate]\<close>, the loop over the
  rules, the loop over the rule-sets other than \<open>"#"\<close>, and \<open>rlg\<close> itself.
\<close>

definition rule_tokens :: "string list option \<Rightarrow> lhs \<Rightarrow> error + sym list \<times> sym list" where
  "rule_tokens multichar_symbols l =
     (case (case l of Bare s \<Rightarrow> [s] | Tuple ss \<Rightarrow> ss) of
        [] \<Rightarrow> Inl IndexError
      | [a] \<Rightarrow> Inr (rlg_tokenize multichar_symbols a, rlg_tokenize multichar_symbols a)
      | a # b # _ \<Rightarrow> Inr (rlg_tokenize multichar_symbols a, rlg_tokenize multichar_symbols b))"

definition rlg_rule ::
  "string list option \<Rightarrow> (string \<times> sid) list \<Rightarrow> string \<Rightarrow> FST \<times> heap \<Rightarrow> rule \<Rightarrow>
   error + FST \<times> heap" where
  "rlg_rule multichar_symbols statedict lexstate fh r =
     (case r of Rule l target wt \<Rightarrow>
        (case map_of statedict lexstate of
           None \<Rightarrow> Inl KeyError
         | Some currstate \<Rightarrow>
             (case rule_tokens multichar_symbols l of
                Inl e \<Rightarrow> Inl e
              | Inr (i, ou) \<Rightarrow>
                  rlg_chain statedict target wt (max (length i) (length ou)) (positions i ou)
                    currstate
                    ((fst fh)\<lparr>alphabet := alphabet (fst fh) \<union> {x \<in> set (i @ ou). x \<noteq> ''''}\<rparr>,
                     snd fh))))"

fun rlg_rules ::
  "string list option \<Rightarrow> (string \<times> sid) list \<Rightarrow> string \<Rightarrow> rule list \<Rightarrow> FST \<times> heap \<Rightarrow>
   error + FST \<times> heap" where
  "rlg_rules multichar_symbols statedict lexstate [] fh = Inr fh"
| "rlg_rules multichar_symbols statedict lexstate (r # rs) fh =
     (case rlg_rule multichar_symbols statedict lexstate fh r of
        Inl e \<Rightarrow> Inl e
      | Inr fh1 \<Rightarrow> rlg_rules multichar_symbols statedict lexstate rs fh1)"

fun rlg_sets ::
  "string list option \<Rightarrow> (string \<times> sid) list \<Rightarrow> grammar \<Rightarrow> string list \<Rightarrow> FST \<times> heap \<Rightarrow>
   error + FST \<times> heap" where
  "rlg_sets multichar_symbols statedict grammar [] fh = Inr fh"
| "rlg_sets multichar_symbols statedict grammar (lexstate # rest) fh =
     (case map_of grammar lexstate of
        None \<Rightarrow> Inl KeyError
      | Some rules \<Rightarrow>
          (case rlg_rules multichar_symbols statedict lexstate rules fh of
             Inl e \<Rightarrow> Inl e
           | Inr fh1 \<Rightarrow> rlg_sets multichar_symbols statedict grammar rest fh1))"

definition rlg :: "grammar \<Rightarrow> string \<Rightarrow> string list option \<Rightarrow> heap \<Rightarrow> error + FST \<times> heap" where
  "rlg grammar startsymbol multichar_symbols h =
     (case FST_init None 0 {} h of
        (newfst, h0) \<Rightarrow>
          (case make_states (remdups (map fst grammar @ [''#''])) h0 of
             (statedict, h1) \<Rightarrow>
               (case (map_of statedict startsymbol, map_of statedict ''#'') of
                  (Some start, Some final) \<Rightarrow>
                    rlg_sets multichar_symbols statedict grammar
                      (filter (\<lambda>nm. nm \<noteq> ''#'') (map fst statedict))
                      (newfst\<lparr>initialstate := start, finalstates := {final},
                              states := set (map snd statedict)\<rparr>,
                       update_state final (\<lambda>st. st\<lparr>finalweight := 0\<rparr>) h1)
                | _ \<Rightarrow> Inl KeyError)))"

section \<open>Properties of the tokenizer\<close>

lemma slice_0: "slice xs 0 n = take n xs" by (simp add: slice_def)

lemma slice_drop: "slice word start (start + l) = take l (drop start word)"
  by (simp add: slice_def)

lemma matches_Suc:
  "matches A rest (Suc n) = (if take (Suc n) rest \<in> A then insert (Suc n) (matches A rest n) else matches A rest n)"
  by (auto simp: matches_def le_Suc_eq)

lemma finite_matches: "finite (matches A rest n)"
  by (simp add: matches_def)

lemma matches_le: "l \<in> matches A rest n \<Longrightarrow> l \<le> n" by (simp add: matches_def)

lemma fold_longest:
  "foldl (\<lambda>t len. if take len rest \<in> A then take len rest else t) t0 [1 ..< n + 1] =
     (if matches A rest n = {} then t0 else take (Max (matches A rest n)) rest)"
proof (induction n)
  case 0
  then show ?case by (simp add: matches_def)
next
  case (Suc n)
  show ?case
  proof (cases "take (Suc n) rest \<in> A")
    case True
    have "Max (insert (Suc n) (matches A rest n)) = Suc n"
      by (rule Max_eqI) (auto simp: finite_matches dest: matches_le)
    with True Suc show ?thesis by (simp add: matches_Suc)
  next
    case False
    with Suc show ?thesis by (simp add: matches_Suc)
  qed
qed

lemma longest_token_eq:
  "start < length word \<Longrightarrow>
   longest_token A word start =
     (if matches A (drop start word) (length word - start) = {} then [word ! start]
      else take (Max (matches A (drop start word) (length word - start))) (drop start word))"
  unfolding longest_token_def slice_drop by (rule fold_longest)

lemma tokenize_loop_step:
  "start < length word \<Longrightarrow>
   tokenize_loop A word tokens start =
     tokenize_loop A word (tokens @ [longest_token A word start])
       (start + length (longest_token A word start))"
  by (subst tokenize_loop.simps) simp

lemma tokenize_loop_done:
  "\<not> start < length word \<Longrightarrow> tokenize_loop A word tokens start = tokens"
  by (subst tokenize_loop.simps) simp

lemma tokenize_loop_acc:
  "tokenize_loop A word tokens start = tokens @ tokenize_loop A word [] start"
proof (induction "length word - start" arbitrary: tokens start rule: less_induct)
  case less
  show ?case
  proof (cases "start < length word")
    case True
    let ?t = "longest_token A word start"
    let ?s = "start + length ?t"
    have dec: "length word - ?s < length word - start"
      using True longest_token_length [of start word A] by simp
    have "tokenize_loop A word tokens start = tokenize_loop A word (tokens @ [?t]) ?s"
      using True by (rule tokenize_loop_step)
    also have "\<dots> = (tokens @ [?t]) @ tokenize_loop A word [] ?s"
      using dec by (rule less)
    also have "\<dots> = tokens @ ([] @ [?t]) @ tokenize_loop A word [] ?s"
      by simp
    also have "\<dots> = tokens @ tokenize_loop A word ([] @ [?t]) ?s"
      using less [OF dec, of "[] @ [?t]"] by simp
    also have "\<dots> = tokens @ tokenize_loop A word [] start"
      using True by (simp only: tokenize_loop_step [symmetric])
    finally show ?thesis .
  next
    case False
    then show ?thesis by (simp add: tokenize_loop_done)
  qed
qed

lemma longest_token_shift:
  "k + start < length word \<Longrightarrow>
   longest_token A (drop k word) start = longest_token A word (k + start)"
  by (simp add: longest_token_eq add.commute)

lemma tokenize_loop_shift:
  "tokenize_loop A (drop k word) tokens start = tokenize_loop A word tokens (k + start)"
proof (induction "length word - (k + start)" arbitrary: tokens start rule: less_induct)
  case less
  show ?case
  proof (cases "k + start < length word")
    case True
    let ?t = "longest_token A word (k + start)"
    have t: "longest_token A (drop k word) start = ?t"
      using True by (rule longest_token_shift)
    have len: "1 \<le> length ?t" using True by (rule longest_token_length)
    have "tokenize_loop A (drop k word) tokens start =
          tokenize_loop A (drop k word) (tokens @ [?t]) (start + length ?t)"
      using True tokenize_loop_step [of start "drop k word" A tokens] t by simp
    also have "\<dots> = tokenize_loop A word (tokens @ [?t]) (k + (start + length ?t))"
      by (rule less) (use len True in simp)
    also have "\<dots> = tokenize_loop A word tokens (k + start)"
      using True tokenize_loop_step [of "k + start" word A tokens] by (simp add: add.assoc)
    finally show ?thesis .
  next
    case False
    then show ?thesis by (simp add: tokenize_loop_done)
  qed
qed

lemma tokenize_unfold:
  assumes "word \<noteq> []"
  shows "tokenize_against_alphabet A word =
         longest_token A word 0 # tokenize_against_alphabet A (drop (length (longest_token A word 0)) word)"
proof -
  let ?t = "longest_token A word 0"
  have "tokenize_loop A word [] 0 = tokenize_loop A word ([] @ [?t]) (0 + length ?t)"
    using assms by (intro tokenize_loop_step) simp
  also have "\<dots> = [?t] @ tokenize_loop A word [] (length ?t + 0)"
    using tokenize_loop_acc [of A word "[?t]"] by simp
  also have "\<dots> = [?t] @ tokenize_loop A (drop (length ?t) word) [] 0"
    by (simp only: tokenize_loop_shift)
  finally show ?thesis by (simp add: tokenize_against_alphabet_def)
qed

text \<open>
  Claim C5. \<open>tokenize_against_alphabet\<close> tokenizes greedily from left to right: the
  empty word has no tokens; on a non-empty word the first token is the longest prefix
  that is an alphabet symbol, or the single next character when no prefix is in the
  alphabet, and the rest of the word is tokenized in the same way. With the alphabet
  \<open>{"ab", "a", "b"}\<close> the word \<open>"ab"\<close> is the one token \<open>"ab"\<close>.
\<close>

theorem tokenize_longest_match:
  "tokenize_against_alphabet A [] = [] \<and>
   (word \<noteq> [] \<longrightarrow>
      (let ms = {l. 1 \<le> l \<and> l \<le> length word \<and> take l word \<in> A};
           t = (if ms = {} then [hd word] else take (Max ms) word)
       in tokenize_against_alphabet A word = t # tokenize_against_alphabet A (drop (length t) word))) \<and>
   tokenize_against_alphabet {''ab'', ''a'', ''b''} ''ab'' = [''ab'']"
proof (intro conjI impI)
  show "tokenize_against_alphabet A [] = []"
    by (simp add: tokenize_against_alphabet_def tokenize_loop_done)
next
  assume w: "word \<noteq> []"
  have "longest_token A word 0 =
        (if matches A word (length word) = {} then [hd word]
         else take (Max (matches A word (length word))) word)"
    using w by (simp add: longest_token_eq hd_conv_nth)
  then show "let ms = {l. 1 \<le> l \<and> l \<le> length word \<and> take l word \<in> A};
           t = (if ms = {} then [hd word] else take (Max ms) word)
       in tokenize_against_alphabet A word = t # tokenize_against_alphabet A (drop (length t) word)"
    using tokenize_unfold [OF w, of A] unfolding Let_def matches_def [symmetric] by simp
next
  show "tokenize_against_alphabet {''ab'', ''a'', ''b''} ''ab'' = [''ab'']"
    by (simp add: tokenize_against_alphabet_def tokenize_loop.simps longest_token_def slice_def)
qed

theorem tokenize_longest_match_witness:
  "''abc'' \<noteq> [] \<and>
   tokenize_against_alphabet {''ab'', ''a''} ''abc'' =
     ''ab'' # tokenize_against_alphabet {''ab'', ''a''} ''c''"
proof -
  have ms: "{l. 1 \<le> l \<and> l \<le> length ''abc'' \<and> take l ''abc'' \<in> {''ab'', ''a''}} = {1, 2}"
  proof -
    have "\<And>l. l \<le> 3 \<Longrightarrow> l = 0 \<or> l = 1 \<or> l = 2 \<or> l = (3::nat)" by arith
    then show ?thesis by (auto simp: take_Cons')
  qed
  show ?thesis
    using tokenize_longest_match [of "{''ab'', ''a''}" "''abc''"] unfolding ms Let_def
    by simp
qed

section \<open>Properties of the state operations\<close>

lemma update_fresh_key: "k \<notin> fst ` set al \<Longrightarrow> AList.update k v al = al @ [(k, v)]"
  by (induction al) auto

lemma delete_fresh_key: "k \<notin> fst ` set al \<Longrightarrow> AList.delete k al = al"
  by (induction al) auto

lemma set_update_subset: "set (AList.update k v al) \<subseteq> insert (k, v) (set al)"
  by (induction al) auto

lemma set_delete_subset: "set (AList.delete k al) \<subseteq> set al"
  by (auto simp: AList.delete_eq)

lemma remove_step_fresh:
  "fst item \<notin> fst ` set newt \<Longrightarrow>
   remove_step h targets newt item =
     (if filter (\<lambda>t. targetstate (trans_of h t) \<notin> targets) (snd item) = [] then newt
      else newt @ [(fst item, filter (\<lambda>t. targetstate (trans_of h t) \<notin> targets) (snd item))])"
proof (cases "filter (\<lambda>t. targetstate (trans_of h t) \<notin> targets) (snd item) = []")
  case True
  assume "fst item \<notin> fst ` set newt"
  then show ?thesis
    using True by (simp add: remove_step_def Let_def AList.delete_update_same)
next
  case False
  assume "fst item \<notin> fst ` set newt"
  then show ?thesis
    using False by (simp add: remove_step_def Let_def update_fresh_key)
qed

lemma foldl_remove_step:
  "distinct (map fst items) \<Longrightarrow> fst ` set newt \<inter> fst ` set items = {} \<Longrightarrow>
   foldl (remove_step h targets) newt items =
     newt @ filter (\<lambda>(lbl, b). b \<noteq> [])
              (map (\<lambda>(lbl, b). (lbl, filter (\<lambda>t. targetstate (trans_of h t) \<notin> targets) b)) items)"
proof (induction items arbitrary: newt)
  case Nil
  then show ?case by simp
next
  case (Cons item items)
  obtain lbl b where item: "item = (lbl, b)" by (cases item)
  have fresh: "fst item \<notin> fst ` set newt" using Cons.prems(2) by auto
  have d: "distinct (map fst items)" using Cons.prems(1) by simp
  have disj: "fst ` set (remove_step h targets newt item) \<inter> fst ` set items = {}"
    using Cons.prems by (auto simp: remove_step_fresh [OF fresh] split: if_splits)
  have "foldl (remove_step h targets) (remove_step h targets newt item) items =
        remove_step h targets newt item @ filter (\<lambda>(lbl, b). b \<noteq> [])
              (map (\<lambda>(lbl, b). (lbl, filter (\<lambda>t. targetstate (trans_of h t) \<notin> targets) b)) items)"
    using d disj by (rule Cons.IH)
  then show ?case
    using remove_step_fresh [OF fresh, of h targets] by (simp add: item)
qed

lemma snd_set_update: "snd ` set (AList.update k v al) \<subseteq> insert v (snd ` set al)"
  by (induction al) auto

lemma snd_set_delete: "snd ` set (AList.delete k al) \<subseteq> snd ` set al"
  by (induction al) auto

lemma remove_step_nonempty:
  assumes "[] \<notin> snd ` set newt"
  shows "[] \<notin> snd ` set (remove_step h targets newt item)"
proof (cases "filter (\<lambda>t. targetstate (trans_of h t) \<notin> targets) (snd item) = []")
  case True
  have "remove_step h targets newt item = AList.delete (fst item) newt"
    unfolding remove_step_def Let_def using True
    by (simp add: AList.delete_update_same)
  then show ?thesis
    using snd_set_delete [of "fst item" newt] assms by auto
next
  case False
  have "remove_step h targets newt item =
        AList.update (fst item) (filter (\<lambda>t. targetstate (trans_of h t) \<notin> targets) (snd item)) newt"
    unfolding remove_step_def Let_def using False by simp
  moreover have "[] \<notin> insert (filter (\<lambda>t. targetstate (trans_of h t) \<notin> targets) (snd item))
                        (snd ` set newt)"
    using assms False by simp
  ultimately show ?thesis
    using snd_set_update [of "fst item"
        "filter (\<lambda>t. targetstate (trans_of h t) \<notin> targets) (snd item)" newt]
    by (metis subsetD)
qed

lemma foldl_remove_step_nonempty:
  "[] \<notin> snd ` set newt \<Longrightarrow> [] \<notin> snd ` set (foldl (remove_step h targets) newt items)"
proof (induction items arbitrary: newt)
  case Nil
  then show ?case by simp
next
  case (Cons item items)
  from Cons.prems have "[] \<notin> snd ` set (remove_step h targets newt item)"
    by (rule remove_step_nonempty)
  then have "[] \<notin> snd ` set (foldl (remove_step h targets) (remove_step h targets newt item) items)"
    by (rule Cons.IH)
  then show ?case by simp
qed

lemma filter_pair_bucket:
  "filter (\<lambda>(lbl, t). P t) (map (Pair l) b) = map (Pair l) (filter P b)"
  unfolding filter_map by (rule arg_cong [where f = "map (Pair l)"]) (simp add: comp_def)

lemma all_transitions_filter:
  "concat (map (\<lambda>(lbl, ts). map (Pair lbl) ts)
      (filter (\<lambda>(lbl, b). b \<noteq> []) (map (\<lambda>(lbl, b). (lbl, filter P b)) items))) =
   filter (\<lambda>(lbl, t). P t) (concat (map (\<lambda>(lbl, ts). map (Pair lbl) ts) items))"
proof (induction items)
  case Nil
  then show ?case by simp
next
  case (Cons item items)
  obtain l b where item: "item = (l, b)" by (cases item)
  show ?case
    by (cases "filter P b = []") (simp_all add: item Cons.IH filter_pair_bucket)
qed

text \<open>
  Claim C7. \<open>remove_transitions_to_targets\<close> removes exactly the transitions whose
  target is in the given set: every bucket keeps its transitions to other targets, in
  order, and a bucket that becomes empty loses its label key. No transition object is
  changed, and afterwards no label of the state is mapped to an empty set.
\<close>

theorem remove_transitions_exact:
  assumes "distinct (map fst (transitions (state_of h self)))"
  shows "transitions (state_of (remove_transitions_to_targets self targets h) self) =
           filter (\<lambda>(lbl, b). b \<noteq> [])
             (map (\<lambda>(lbl, b). (lbl, filter (\<lambda>t. targetstate (trans_of h t) \<notin> targets) b))
                (transitions (state_of h self))) \<and>
         all_transitions (remove_transitions_to_targets self targets h) self =
           filter (\<lambda>(lbl, t). targetstate (trans_of h t) \<notin> targets) (all_transitions h self) \<and>
         trans_of (remove_transitions_to_targets self targets h) = trans_of h \<and>
         (\<forall>(lbl, b) \<in> set (transitions (state_of (remove_transitions_to_targets self targets h) self)).
             b \<noteq> [])"
proof -
  let ?h' = "remove_transitions_to_targets self targets h"
  have tr: "transitions (state_of ?h' self) =
            foldl (remove_step h targets) [] (transitions (state_of h self))"
    by (simp add: remove_transitions_to_targets_def update_state_def)
  have eq: "transitions (state_of ?h' self) =
           filter (\<lambda>(lbl, b). b \<noteq> [])
             (map (\<lambda>(lbl, b). (lbl, filter (\<lambda>t. targetstate (trans_of h t) \<notin> targets) b))
                (transitions (state_of h self)))"
    using foldl_remove_step [OF assms, of "[]" h targets] by (simp add: tr)
  have a: "all_transitions ?h' self =
           filter (\<lambda>(lbl, t). targetstate (trans_of h t) \<notin> targets) (all_transitions h self)"
    unfolding all_transitions_def eq by (rule all_transitions_filter)
  have b: "trans_of ?h' = trans_of h"
    by (simp add: remove_transitions_to_targets_def update_state_def)
  have "[] \<notin> snd ` set (transitions (state_of ?h' self))"
    unfolding tr by (rule foldl_remove_step_nonempty) simp
  then have c: "\<forall>(lbl, b) \<in> set (transitions (state_of ?h' self)). b \<noteq> []"
    by force
  show ?thesis
    by (intro conjI) (fact eq, fact a, fact b, fact c)
qed

theorem remove_transitions_exact_witness:
  "distinct (map fst (transitions (state_of
      (add_transition 0 1 [''b''] 0 (add_transition 0 0 [''a''] 0 empty_heap)) 0))) \<and>
   transitions (state_of
      (remove_transitions_to_targets 0 {1}
         (add_transition 0 1 [''b''] 0 (add_transition 0 0 [''a''] 0 empty_heap))) 0) =
     [([''a''], [0])]"
proof -
  let ?h = "add_transition 0 1 [''b''] 0 (add_transition 0 0 [''a''] 0 empty_heap)"
  have tr: "transitions (state_of ?h 0) = [([''a''], [0]), ([''b''], [1])]"
    by (simp add: add_transition_def Transition_init_def update_state_def empty_heap_def
        set_union_def dict_get_def)
  have t0: "targetstate (trans_of ?h 0) = 0" and t1: "targetstate (trans_of ?h 1) = 1"
    by (simp_all add: add_transition_def Transition_init_def update_state_def empty_heap_def)
  have d: "distinct (map fst (transitions (state_of ?h 0)))"
    using tr by simp
  show ?thesis
    using remove_transitions_exact [OF d, of "{1}"] d tr t0 t1 by simp
qed

lemma dict_get_update: "dict_get (AList.update k v al) k = v"
  by (simp add: dict_get_def AList.update_conv')

lemma dict_get_in: "dict_get al k \<noteq> [] \<Longrightarrow> (k, dict_get al k) \<in> set al"
  by (auto simp: dict_get_def split: option.splits dest: map_of_SomeD)

lemma dict_get_member: "t \<in> set (dict_get al k) \<Longrightarrow> (k, dict_get al k) \<in> set al"
proof -
  assume "t \<in> set (dict_get al k)"
  then have "dict_get al k \<noteq> []" by auto
  then show ?thesis by (rule dict_get_in)
qed

lemma allocated_bucket:
  assumes "buckets_allocated h s" and "t \<in> set (dict_get (transitions (state_of h s)) lbl)"
  shows "t < next_tid h"
proof -
  have "(lbl, dict_get (transitions (state_of h s)) lbl) \<in> set (transitions (state_of h s))"
    using assms(2) by (rule dict_get_member)
  with assms show ?thesis unfolding buckets_allocated_def by blast
qed

lemma set_union_fresh: "t \<notin> set b \<Longrightarrow> set_union b [t] = b @ [t]"
  by (simp add: set_union_def)

lemma set_set_union: "set (set_union xs ys) = set xs \<union> set ys"
  by (auto simp: set_union_def)

lemma add_transition_transitions:
  "transitions (state_of (add_transition self other lbl wt h) self) =
     AList.update lbl (set_union (dict_get (transitions (state_of h self)) lbl) [next_tid h])
       (transitions (state_of h self))"
  by (simp add: add_transition_def Transition_init_def update_state_def)

lemma add_transition_trans_of:
  "trans_of (add_transition self other lbl wt h) =
     (trans_of h)(next_tid h := \<lparr>targetstate = other, label = lbl, weight = wt\<rparr>)"
  by (simp add: add_transition_def Transition_init_def update_state_def)

lemma add_transition_next_tid:
  "next_tid (add_transition self other lbl wt h) = Suc (next_tid h)"
  by (simp add: add_transition_def Transition_init_def update_state_def)

lemma add_transition_caches:
  "cached_transitionsin (state_of (add_transition self other lbl wt h) s) =
     cached_transitionsin (state_of h s)"
  "cached_transitionsout (state_of (add_transition self other lbl wt h) s) =
     cached_transitionsout (state_of h s)"
  by (simp_all add: add_transition_def Transition_init_def update_state_def)

lemma bucket_fresh:
  assumes "buckets_allocated h s"
  shows "next_tid h \<notin> set (dict_get (transitions (state_of h s)) lbl)"
proof
  assume m: "next_tid h \<in> set (dict_get (transitions (state_of h s)) lbl)"
  then have "(lbl, dict_get (transitions (state_of h s)) lbl) \<in> set (transitions (state_of h s))"
    by (rule dict_get_member)
  with assms m have "next_tid h < next_tid h"
    unfolding buckets_allocated_def by blast
  then show False by simp
qed

lemma add_transition_bucket:
  assumes "buckets_allocated h s"
  shows "dict_get (transitions (state_of (add_transition s other lbl wt h) s)) lbl =
         dict_get (transitions (state_of h s)) lbl @ [next_tid h]"
  by (simp add: add_transition_transitions dict_get_update set_union_fresh bucket_fresh [OF assms])

lemma add_transition_allocated:
  assumes "buckets_allocated h s"
  shows "buckets_allocated (add_transition s other lbl wt h) s"
  unfolding buckets_allocated_def
proof (intro allI impI)
  fix l b t
  assume in_tr: "(l, b) \<in> set (transitions (state_of (add_transition s other lbl wt h) s))"
    and t: "t \<in> set b"
  let ?nb = "set_union (dict_get (transitions (state_of h s)) lbl) [next_tid h]"
  from in_tr have "(l, b) \<in> insert (lbl, ?nb) (set (transitions (state_of h s)))"
    using set_update_subset [of lbl ?nb "transitions (state_of h s)"]
    unfolding add_transition_transitions by blast
  then consider "b = ?nb" | "(l, b) \<in> set (transitions (state_of h s))" by auto
  then have "t < Suc (next_tid h)"
  proof cases
    case 1
    with t have "t = next_tid h \<or> t \<in> set (dict_get (transitions (state_of h s)) lbl)"
      by (auto simp: set_set_union)
    then show ?thesis
    proof
      assume "t = next_tid h" then show ?thesis by simp
    next
      assume m: "t \<in> set (dict_get (transitions (state_of h s)) lbl)"
      then have "(lbl, dict_get (transitions (state_of h s)) lbl) \<in> set (transitions (state_of h s))"
        by (rule dict_get_member)
      with assms m have "t < next_tid h" unfolding buckets_allocated_def by blast
      then show ?thesis by simp
    qed
  next
    case 2
    with assms t have "t < next_tid h" unfolding buckets_allocated_def by blast
    then show ?thesis by simp
  qed
  then show "t < next_tid (add_transition s other lbl wt h)"
    by (simp add: add_transition_next_tid)
qed

text \<open>
  Claim C3, as the code has it. Every call of \<open>add_transition\<close> makes a new
  \<open>Transition\<close> object, and the set under the label holds objects by identity. Calling
  it twice with the same target, label and weight therefore leaves two transitions in the
  bucket, one more than calling it once; the two objects agree in target, label and
  weight, so only the set of (target, label, weight) triples is the same after the
  second call as after the first.
\<close>

theorem add_transition_twice:
  assumes "buckets_allocated h self"
  shows "(let h1 = add_transition self other lbl wt h;
              h2 = add_transition self other lbl wt h1;
              bucket = (\<lambda>g. dict_get (transitions (state_of g self)) lbl)
          in bucket h1 = bucket h @ [next_tid h] \<and>
             bucket h2 = bucket h @ [next_tid h, Suc (next_tid h)] \<and>
             trans_of h2 (next_tid h) = \<lparr>targetstate = other, label = lbl, weight = wt\<rparr> \<and>
             trans_of h2 (Suc (next_tid h)) = \<lparr>targetstate = other, label = lbl, weight = wt\<rparr> \<and>
             trans_of h2 ` set (bucket h2) = trans_of h1 ` set (bucket h1))"
proof -
  let ?h1 = "add_transition self other lbl wt h"
  let ?h2 = "add_transition self other lbl wt ?h1"
  let ?b = "\<lambda>g. dict_get (transitions (state_of g self)) lbl"
  let ?n = "next_tid h"
  have a1: "buckets_allocated ?h1 self" using assms by (rule add_transition_allocated)
  have b1: "?b ?h1 = ?b h @ [?n]" using assms by (rule add_transition_bucket)
  have b2: "?b ?h2 = ?b h @ [?n, Suc ?n]"
    using add_transition_bucket [OF a1, of other lbl wt] by (simp add: b1 add_transition_next_tid)
  have t1: "trans_of ?h1 = (trans_of h)(?n := \<lparr>targetstate = other, label = lbl, weight = wt\<rparr>)"
    by (rule add_transition_trans_of)
  have t2: "trans_of ?h2 = (trans_of ?h1)(Suc ?n := \<lparr>targetstate = other, label = lbl, weight = wt\<rparr>)"
    using add_transition_trans_of [of self other lbl wt ?h1] by (simp add: add_transition_next_tid)
  have old: "\<And>t. t \<in> set (?b h) \<Longrightarrow> t < ?n"
    using assms by (rule allocated_bucket)
  have img: "trans_of ?h2 ` set (?b ?h2) = trans_of ?h1 ` set (?b ?h1)"
  proof -
    have "trans_of ?h2 ` set (?b h) = trans_of ?h1 ` set (?b h)"
    proof (rule image_cong [OF refl])
      fix t assume "t \<in> set (?b h)"
      then have "t \<noteq> Suc ?n" using old [of t] by simp
      then show "trans_of ?h2 t = trans_of ?h1 t" by (simp add: t2)
    qed
    moreover have "trans_of ?h2 ?n = \<lparr>targetstate = other, label = lbl, weight = wt\<rparr>"
      "trans_of ?h2 (Suc ?n) = \<lparr>targetstate = other, label = lbl, weight = wt\<rparr>"
      "trans_of ?h1 ?n = \<lparr>targetstate = other, label = lbl, weight = wt\<rparr>"
      by (simp_all add: t1 t2)
    ultimately show ?thesis unfolding b1 b2 by (simp add: image_Un)
  qed
  have n1: "trans_of ?h2 ?n = \<lparr>targetstate = other, label = lbl, weight = wt\<rparr>"
    and n2: "trans_of ?h2 (Suc ?n) = \<lparr>targetstate = other, label = lbl, weight = wt\<rparr>"
    by (simp_all add: t1 t2)
  show ?thesis
    unfolding Let_def by (intro conjI) (fact b1, fact b2, fact n1, fact n2, fact img)
qed

theorem add_transition_twice_witness:
  "buckets_allocated (snd (State_init None None empty_heap)) 0 \<and>
   dict_get (transitions (state_of
       (add_transition 0 0 [''a''] 0 (add_transition 0 0 [''a''] 0
          (snd (State_init None None empty_heap)))) 0)) [''a''] = [0, 1]"
proof -
  let ?h = "snd (State_init None None empty_heap)"
  have a: "buckets_allocated ?h 0"
    by (simp add: buckets_allocated_def State_init_def empty_heap_def)
  have n: "next_tid ?h = 0" and b: "dict_get (transitions (state_of ?h 0)) [''a''] = []"
    by (simp_all add: State_init_def empty_heap_def dict_get_def)
  show ?thesis
    using add_transition_twice [OF a, of 0 "[''a'']" 0] a n b by (simp add: Let_def)
qed

text \<open>
  The claim as stated fails: on a fresh state, the second identical call adds a second
  transition, which \<open>all_transitions\<close> then yields as well.
\<close>

theorem add_transition_twice_counterexample:
  "all_transitions (add_transition 0 0 [''a''] 0 (snd (State_init None None empty_heap))) 0 =
     [([''a''], 0)] \<and>
   all_transitions (add_transition 0 0 [''a''] 0
      (add_transition 0 0 [''a''] 0 (snd (State_init None None empty_heap)))) 0 =
     [([''a''], 0), ([''a''], 1)] \<and>
   transitions (state_of (add_transition 0 0 [''a''] 0
      (add_transition 0 0 [''a''] 0 (snd (State_init None None empty_heap)))) 0) \<noteq>
   transitions (state_of (add_transition 0 0 [''a''] 0
      (snd (State_init None None empty_heap))) 0)"
  by (simp add: all_transitions_def add_transition_def Transition_init_def update_state_def
      State_init_def empty_heap_def set_union_def dict_get_def)

lemma foldl_set_label_state: "state_of (foldl (set_label new) h b) = state_of h"
  by (induction b arbitrary: h) (simp_all add: set_label_def)

lemma foldl_set_label_next: "next_tid (foldl (set_label new) h b) = next_tid h"
  by (induction b arbitrary: h) (simp_all add: set_label_def)

lemma foldl_set_label_trans:
  "trans_of (foldl (set_label new) h b) t =
     (if t \<in> set b then (trans_of h t)\<lparr>label := new\<rparr> else trans_of h t)"
  by (induction b arbitrary: h) (auto simp: set_label_def)

lemma rename_label_Inr:
  assumes "rename_label self original new h = Inr h'"
  shows "\<exists>bucket. map_of (transitions (state_of h self)) original = Some bucket \<and>
      transitions (state_of h' self) =
           AList.delete original
             (AList.update new (set_union (dict_get (transitions (state_of h self)) new) bucket)
                (transitions (state_of h self))) \<and>
      (\<forall>t. trans_of h' t =
           (if t \<in> set bucket then (trans_of h t)\<lparr>label := new\<rparr> else trans_of h t)) \<and>
      (\<forall>s. cached_transitionsin (state_of h' s) = cached_transitionsin (state_of h s)) \<and>
      (\<forall>s. cached_transitionsout (state_of h' s) = cached_transitionsout (state_of h s))"
proof (cases "map_of (transitions (state_of h self)) original")
  case None
  with assms show ?thesis by (simp add: rename_label_def)
next
  case (Some bucket)
  with assms have h': "h' = update_state self
                 (\<lambda>st. st\<lparr>transitions :=
                            AList.delete original
                              (AList.update new
                                 (set_union (dict_get (transitions st) new) bucket)
                                 (transitions st))\<rparr>)
                 (foldl (set_label new) h bucket)"
    by (simp add: rename_label_def)
  have "transitions (state_of h' self) =
           AList.delete original
             (AList.update new (set_union (dict_get (transitions (state_of h self)) new) bucket)
                (transitions (state_of h self)))"
    by (simp add: h' update_state_def foldl_set_label_state)
  moreover have "\<forall>t. trans_of h' t =
           (if t \<in> set bucket then (trans_of h t)\<lparr>label := new\<rparr> else trans_of h t)"
    by (simp add: h' update_state_def foldl_set_label_trans)
  moreover have "\<forall>s. cached_transitionsin (state_of h' s) = cached_transitionsin (state_of h s)"
    by (simp add: h' update_state_def foldl_set_label_state)
  moreover have "\<forall>s. cached_transitionsout (state_of h' s) = cached_transitionsout (state_of h s)"
    by (simp add: h' update_state_def foldl_set_label_state)
  ultimately show ?thesis using Some by blast
qed

lemma labels_agree_add:
  assumes la: "labels_agree h s" and al: "buckets_allocated h s"
  shows "labels_agree (add_transition s other lbl wt h) s"
  unfolding labels_agree_def
proof (intro allI impI)
  fix l b t
  assume in_tr: "(l, b) \<in> set (transitions (state_of (add_transition s other lbl wt h) s))"
    and t: "t \<in> set b"
  let ?old = "dict_get (transitions (state_of h s)) lbl"
  let ?nb = "set_union ?old [next_tid h]"
  let ?h' = "add_transition s other lbl wt h"
  from in_tr have "(l, b) \<in> insert (lbl, ?nb) (set (transitions (state_of h s)))"
    using set_update_subset [of lbl ?nb "transitions (state_of h s)"]
    unfolding add_transition_transitions by blast
  then consider "l = lbl" "b = ?nb" | "(l, b) \<in> set (transitions (state_of h s))" by auto
  then show "label (trans_of ?h' t) = l"
  proof cases
    case 1
    with t have "t = next_tid h \<or> t \<in> set ?old" by (auto simp: set_set_union)
    then show ?thesis
    proof
      assume "t = next_tid h"
      then show ?thesis by (simp add: add_transition_trans_of 1)
    next
      assume m: "t \<in> set ?old"
      then have "(lbl, ?old) \<in> set (transitions (state_of h s))" by (rule dict_get_member)
      with la m have "label (trans_of h t) = lbl" unfolding labels_agree_def by blast
      moreover have "t \<noteq> next_tid h" using allocated_bucket [OF al m] by simp
      ultimately show ?thesis by (simp add: add_transition_trans_of 1)
    qed
  next
    case 2
    with la t have "label (trans_of h t) = l" unfolding labels_agree_def by blast
    moreover have "t < next_tid h" using al 2 t unfolding buckets_allocated_def by blast
    ultimately show ?thesis by (simp add: add_transition_trans_of)
  qed
qed

lemma labels_agree_rename:
  assumes la: "labels_agree h s" and r: "rename_label s original new h = Inr h'"
  shows "labels_agree h' s"
proof -
  from rename_label_Inr [OF r] obtain bucket where
    bk: "map_of (transitions (state_of h s)) original = Some bucket"
    and tr: "transitions (state_of h' s) =
           AList.delete original
             (AList.update new (set_union (dict_get (transitions (state_of h s)) new) bucket)
                (transitions (state_of h s)))"
    and tof: "\<And>t. trans_of h' t =
           (if t \<in> set bucket then (trans_of h t)\<lparr>label := new\<rparr> else trans_of h t)"
    by blast
  let ?old = "dict_get (transitions (state_of h s)) new"
  let ?nb = "set_union ?old bucket"
  have bin: "(original, bucket) \<in> set (transitions (state_of h s))"
    using bk by (rule map_of_SomeD)
  show ?thesis
    unfolding labels_agree_def
  proof (intro allI impI)
    fix l b t
    assume in_tr: "(l, b) \<in> set (transitions (state_of h' s))" and t: "t \<in> set b"
    from in_tr have ne: "l \<noteq> original"
      and "(l, b) \<in> set (AList.update new ?nb (transitions (state_of h s)))"
      unfolding tr by (auto simp: AList.delete_eq)
    then have "(l, b) \<in> insert (new, ?nb) (set (transitions (state_of h s)))"
      using set_update_subset [of new ?nb "transitions (state_of h s)"] by blast
    then consider "l = new" "b = ?nb" | "(l, b) \<in> set (transitions (state_of h s))" by auto
    then show "label (trans_of h' t) = l"
    proof cases
      case 1
      with t have "t \<in> set bucket \<or> t \<in> set ?old" by (auto simp: set_set_union)
      then show ?thesis
      proof
        assume "t \<in> set bucket"
        then show ?thesis by (simp add: tof 1)
      next
        assume m: "t \<in> set ?old"
        then have "(new, ?old) \<in> set (transitions (state_of h s))" by (rule dict_get_member)
        with la m have "label (trans_of h t) = new" unfolding labels_agree_def by blast
        then show ?thesis by (simp add: tof 1)
      qed
    next
      case 2
      with la t have lt: "label (trans_of h t) = l" unfolding labels_agree_def by blast
      have "t \<notin> set bucket"
      proof
        assume "t \<in> set bucket"
        with la bin have "label (trans_of h t) = original" unfolding labels_agree_def by blast
        with lt ne show False by simp
      qed
      then show ?thesis by (simp add: tof lt)
    qed
  qed
qed

lemma set_remove_step:
  "set (remove_step h targets newt item) \<subseteq>
     insert (fst item, filter (\<lambda>t. targetstate (trans_of h t) \<notin> targets) (snd item)) (set newt)"
proof -
  let ?kept = "filter (\<lambda>t. targetstate (trans_of h t) \<notin> targets) (snd item)"
  have "set (AList.delete (fst item) (AList.update (fst item) ?kept newt)) \<subseteq>
        set (AList.update (fst item) ?kept newt)"
    by (rule set_delete_subset)
  then have "set (AList.delete (fst item) (AList.update (fst item) ?kept newt)) \<subseteq>
        insert (fst item, ?kept) (set newt)"
    using set_update_subset [of "fst item" ?kept newt] by (rule subset_trans)
  then show ?thesis
    using set_update_subset [of "fst item" ?kept newt]
    unfolding remove_step_def Let_def
    by (cases "length ?kept = 0") (simp_all only: if_True if_False refl)
qed

lemma set_foldl_remove_step:
  "(l, b) \<in> set (foldl (remove_step h targets) newt items) \<Longrightarrow>
   (l, b) \<in> set newt \<or>
   (\<exists>b0. (l, b0) \<in> set items \<and> b = filter (\<lambda>t. targetstate (trans_of h t) \<notin> targets) b0)"
proof (induction items arbitrary: newt)
  case Nil
  then show ?case by simp
next
  case (Cons item items)
  from Cons.prems have "(l, b) \<in> set (foldl (remove_step h targets) (remove_step h targets newt item) items)"
    by simp
  then have "(l, b) \<in> set (remove_step h targets newt item) \<or>
     (\<exists>b0. (l, b0) \<in> set items \<and> b = filter (\<lambda>t. targetstate (trans_of h t) \<notin> targets) b0)"
    by (rule Cons.IH)
  then show ?case
  proof
    assume "(l, b) \<in> set (remove_step h targets newt item)"
    then have "(l, b) = (fst item, filter (\<lambda>t. targetstate (trans_of h t) \<notin> targets) (snd item))
               \<or> (l, b) \<in> set newt"
      using set_remove_step [of h targets newt item] by blast
    then show ?thesis
    proof
      assume e: "(l, b) = (fst item, filter (\<lambda>t. targetstate (trans_of h t) \<notin> targets) (snd item))"
      have "(l, snd item) \<in> set (item # items)" using e by (cases item) simp
      with e show ?thesis by blast
    next
      assume "(l, b) \<in> set newt" then show ?thesis by simp
    qed
  next
    assume "\<exists>b0. (l, b0) \<in> set items \<and> b = filter (\<lambda>t. targetstate (trans_of h t) \<notin> targets) b0"
    then show ?thesis by auto
  qed
qed

lemma labels_agree_remove:
  assumes la: "labels_agree h s"
  shows "labels_agree (remove_transitions_to_targets s targets h) s"
  unfolding labels_agree_def
proof (intro allI impI)
  fix l b t
  let ?h' = "remove_transitions_to_targets s targets h"
  assume in_tr: "(l, b) \<in> set (transitions (state_of ?h' s))" and t: "t \<in> set b"
  have tr: "transitions (state_of ?h' s) =
            foldl (remove_step h targets) [] (transitions (state_of h s))"
    by (simp add: remove_transitions_to_targets_def update_state_def)
  have tof: "trans_of ?h' = trans_of h"
    by (simp add: remove_transitions_to_targets_def update_state_def)
  from in_tr obtain b0 where b0: "(l, b0) \<in> set (transitions (state_of h s))"
    and b: "b = filter (\<lambda>t. targetstate (trans_of h t) \<notin> targets) b0"
    unfolding tr using set_foldl_remove_step [of l b h targets "[]"] by auto
  from t b have "t \<in> set b0" by simp
  with la b0 have "label (trans_of h t) = l" unfolding labels_agree_def by blast
  then show "label (trans_of ?h' t) = l" by (simp add: tof)
qed

lemma labels_agree_fresh:
  "labels_agree (snd (State_init fw nm h)) (fst (State_init fw nm h))"
  by (simp add: labels_agree_def State_init_def)

text \<open>
  Claim C10. The invariant of a state that every transition in the bucket of a label
  carries that label holds for a new state, and is preserved by \<open>add_transition\<close>, by
  \<open>rename_label\<close> (which gives every moved transition the new label) and by
  \<open>remove_transitions_to_targets\<close> (which changes no transition object).
\<close>

theorem labels_agree_invariant:
  "labels_agree (snd (State_init fw nm h)) (fst (State_init fw nm h)) \<and>
   (labels_agree h s \<and> buckets_allocated h s \<longrightarrow>
      labels_agree (add_transition s other lbl wt h) s) \<and>
   (labels_agree h s \<and> rename_label s original new h = Inr h' \<longrightarrow>
      labels_agree h' s \<and>
      (\<forall>t \<in> set (dict_get (transitions (state_of h s)) original). label (trans_of h' t) = new)) \<and>
   (labels_agree h s \<longrightarrow>
      labels_agree (remove_transitions_to_targets s targets h) s \<and>
      trans_of (remove_transitions_to_targets s targets h) = trans_of h)"
proof (intro conjI impI)
  show "labels_agree (snd (State_init fw nm h)) (fst (State_init fw nm h))"
    by (rule labels_agree_fresh)
next
  assume "labels_agree h s \<and> buckets_allocated h s"
  then show "labels_agree (add_transition s other lbl wt h) s"
    using labels_agree_add by blast
next
  assume "labels_agree h s \<and> rename_label s original new h = Inr h'"
  then show "labels_agree h' s" using labels_agree_rename by blast
next
  assume a: "labels_agree h s \<and> rename_label s original new h = Inr h'"
  then obtain bucket where
    bk: "map_of (transitions (state_of h s)) original = Some bucket"
    and tof: "\<And>t. trans_of h' t =
           (if t \<in> set bucket then (trans_of h t)\<lparr>label := new\<rparr> else trans_of h t)"
    using rename_label_Inr [of s original new h h'] by blast
  show "\<forall>t \<in> set (dict_get (transitions (state_of h s)) original). label (trans_of h' t) = new"
    by (simp add: dict_get_def bk tof)
next
  assume "labels_agree h s"
  then show "labels_agree (remove_transitions_to_targets s targets h) s"
    by (rule labels_agree_remove)
next
  show "trans_of (remove_transitions_to_targets s targets h) = trans_of h"
    by (simp add: remove_transitions_to_targets_def update_state_def)
qed

theorem labels_agree_invariant_witness:
  "labels_agree (add_transition 0 0 [''a''] 0 (snd (State_init None None empty_heap))) 0 \<and>
   buckets_allocated (add_transition 0 0 [''a''] 0 (snd (State_init None None empty_heap))) 0 \<and>
   rename_label 0 [''a''] [''b'']
       (add_transition 0 0 [''a''] 0 (snd (State_init None None empty_heap))) =
     Inr (projr (rename_label 0 [''a''] [''b'']
       (add_transition 0 0 [''a''] 0 (snd (State_init None None empty_heap))))) \<and>
   labels_agree (add_transition 0 0 [''c''] 0
       (add_transition 0 0 [''a''] 0 (snd (State_init None None empty_heap)))) 0 \<and>
   labels_agree (projr (rename_label 0 [''a''] [''b'']
       (add_transition 0 0 [''a''] 0 (snd (State_init None None empty_heap))))) 0 \<and>
   labels_agree (remove_transitions_to_targets 0 {0}
       (add_transition 0 0 [''a''] 0 (snd (State_init None None empty_heap)))) 0"
proof -
  let ?h = "add_transition 0 0 [''a''] 0 (snd (State_init None None empty_heap))"
  have tr: "transitions (state_of ?h 0) = [([''a''], [0])]"
    by (simp add: add_transition_def Transition_init_def update_state_def State_init_def
        empty_heap_def set_union_def dict_get_def)
  have lb: "label (trans_of ?h 0) = [''a'']" and nt: "next_tid ?h = 1"
    by (simp_all add: add_transition_def Transition_init_def update_state_def State_init_def
        empty_heap_def)
  have la: "labels_agree ?h 0"
    by (simp add: labels_agree_def tr lb)
  have al: "buckets_allocated ?h 0"
    by (simp add: buckets_allocated_def tr nt)
  have r: "rename_label 0 [''a''] [''b''] ?h = Inr (projr (rename_label 0 [''a''] [''b''] ?h))"
    by (simp add: rename_label_def tr)
  show ?thesis
    using labels_agree_invariant [where h = ?h and s = 0 and other = 0 and lbl = "[''c'']"
        and wt = 0 and original = "[''a'']" and new = "[''b'']"
        and h' = "projr (rename_label 0 [''a''] [''b''] ?h)" and targets = "{0}"] la al r
    by blast
qed

text \<open>
  Claim C2, as the code has it. No operation resets \<open>_transitionsin\<close> or
  \<open>_transitionsout\<close>: \<open>add_transition\<close>, \<open>remove_transitions_to_targets\<close> and
  \<open>rename_label\<close> leave both cache fields as they were. An index that has been computed
  is returned as it is by every later lookup, so it shows the transitions of the state at
  the first access; only a state whose index has not been computed yet gets an index of
  its current transitions, which is then cached.
\<close>

theorem index_cache_kept:
  "cached_transitionsin (state_of (add_transition self other lbl wt h) self) =
     cached_transitionsin (state_of h self) \<and>
   cached_transitionsout (state_of (add_transition self other lbl wt h) self) =
     cached_transitionsout (state_of h self) \<and>
   cached_transitionsin (state_of (remove_transitions_to_targets self targets h) self) =
     cached_transitionsin (state_of h self) \<and>
   cached_transitionsout (state_of (remove_transitions_to_targets self targets h) self) =
     cached_transitionsout (state_of h self) \<and>
   (rename_label self original new h = Inr h' \<longrightarrow>
      cached_transitionsin (state_of h' self) = cached_transitionsin (state_of h self) \<and>
      cached_transitionsout (state_of h' self) = cached_transitionsout (state_of h self)) \<and>
   (cached_transitionsin (state_of h self) = Some idx \<longrightarrow>
      transitionsin self h = ((idx, None), h)) \<and>
   (cached_transitionsout (state_of h self) = Some idx \<longrightarrow>
      transitionsout self h = ((idx, None), h)) \<and>
   (cached_transitionsin (state_of h self) = None \<longrightarrow>
      fst (transitionsin self h) = index_build first_sym (transitions (state_of h self)) [] \<and>
      cached_transitionsin (state_of (snd (transitionsin self h)) self) =
        Some (fst (fst (transitionsin self h)))) \<and>
   (cached_transitionsout (state_of h self) = None \<longrightarrow>
      fst (transitionsout self h) = index_build last_sym (transitions (state_of h self)) [] \<and>
      cached_transitionsout (state_of (snd (transitionsout self h)) self) =
        Some (fst (fst (transitionsout self h))))"
proof (intro conjI impI)
  assume "rename_label self original new h = Inr h'"
  then show "cached_transitionsin (state_of h' self) = cached_transitionsin (state_of h self)"
    and "cached_transitionsout (state_of h' self) = cached_transitionsout (state_of h self)"
    using rename_label_Inr [of self original new h h'] by blast+
qed (simp_all add: add_transition_caches remove_transitions_to_targets_def update_state_def
      transitionsin_def transitionsout_def Let_def)

theorem index_cache_kept_witness:
  "rename_label 0 [''a''] [''b'']
       (add_transition 0 0 [''a''] 0 (snd (transitionsin 0 (snd (State_init None None empty_heap))))) =
     Inr (projr (rename_label 0 [''a''] [''b'']
       (add_transition 0 0 [''a''] 0 (snd (transitionsin 0 (snd (State_init None None empty_heap))))))) \<and>
   cached_transitionsin (state_of (snd (State_init None None empty_heap)) 0) = None \<and>
   cached_transitionsout (state_of (snd (State_init None None empty_heap)) 0) = None \<and>
   cached_transitionsin (state_of
       (add_transition 0 0 [''a''] 0 (snd (transitionsin 0 (snd (State_init None None empty_heap))))) 0) =
     Some [] \<and>
   cached_transitionsout (state_of
       (snd (transitionsout 0 (snd (State_init None None empty_heap)))) 0) = Some [] \<and>
   cached_transitionsin (state_of (projr (rename_label 0 [''a''] [''b'']
       (add_transition 0 0 [''a''] 0 (snd (transitionsin 0 (snd (State_init None None empty_heap))))))) 0) =
     Some [] \<and>
   transitionsin 0
       (add_transition 0 0 [''a''] 0 (snd (transitionsin 0 (snd (State_init None None empty_heap))))) =
     (([], None),
      add_transition 0 0 [''a''] 0 (snd (transitionsin 0 (snd (State_init None None empty_heap)))))"
proof -
  let ?ha = "snd (State_init None None empty_heap)"
  let ?hb = "snd (transitionsin 0 ?ha)"
  let ?h = "add_transition 0 0 [''a''] 0 ?hb"
  have c0: "cached_transitionsin (state_of ?ha 0) = None"
    and d0: "cached_transitionsout (state_of ?ha 0) = None"
    and t0: "transitions (state_of ?ha 0) = []"
    by (simp_all add: State_init_def empty_heap_def)
  have c1: "cached_transitionsin (state_of ?hb 0) = Some []"
    using index_cache_kept [where self = 0 and h = ?ha and idx = "[]"] c0 t0 by simp
  have d1: "cached_transitionsout (state_of (snd (transitionsout 0 ?ha)) 0) = Some []"
    using index_cache_kept [where self = 0 and h = ?ha and idx = "[]"] d0 t0 by simp
  have c2: "cached_transitionsin (state_of ?h 0) = Some []"
    using index_cache_kept [where self = 0 and other = 0 and lbl = "[''a'']" and wt = 0
        and h = ?hb and idx = "[]"] c1 by simp
  have tr: "transitions (state_of ?h 0) = [([''a''], [0])]"
    by (simp add: add_transition_def Transition_init_def update_state_def State_init_def
        empty_heap_def set_union_def dict_get_def transitionsin_def Let_def)
  have r: "rename_label 0 [''a''] [''b''] ?h = Inr (projr (rename_label 0 [''a''] [''b''] ?h))"
    by (simp add: rename_label_def tr)
  have c3: "cached_transitionsin (state_of (projr (rename_label 0 [''a''] [''b''] ?h)) 0) = Some []"
    using index_cache_kept [where self = 0 and h = ?h and original = "[''a'']"
        and new = "[''b'']" and h' = "projr (rename_label 0 [''a''] [''b''] ?h)"] r c2 by simp
  have l: "transitionsin 0 ?h = (([], None), ?h)"
    using index_cache_kept [where self = 0 and h = ?h and idx = "[]"] c2 by simp
  show ?thesis
    by (intro conjI) (fact r, fact c0, fact d0, fact c2, fact d1, fact c3, fact l)
qed

text \<open>
  The claim as stated fails: the index of a new state is computed (and is empty), then a
  transition with label \<open>("a",)\<close> is added; the next lookup still returns the empty
  index, although the state has the transition. The same happens in the other direction
  when the only transition is removed after the index was computed.
\<close>

theorem index_cache_stale_counterexample:
  "all_transitions
       (add_transition 0 0 [''a''] 0 (snd (transitionsin 0 (snd (State_init None None empty_heap))))) 0 =
     [([''a''], 0)] \<and>
   dict_get (fst (fst (transitionsin 0
       (add_transition 0 0 [''a''] 0 (snd (transitionsin 0 (snd (State_init None None empty_heap))))))))
     ''a'' = [] \<and>
   all_transitions
       (remove_transitions_to_targets 0 {0}
          (snd (transitionsin 0 (add_transition 0 0 [''a''] 0 (snd (State_init None None empty_heap)))))) 0 =
     [] \<and>
   dict_get (fst (fst (transitionsin 0
       (remove_transitions_to_targets 0 {0}
          (snd (transitionsin 0 (add_transition 0 0 [''a''] 0 (snd (State_init None None empty_heap)))))))))
     ''a'' = [([''a''], 0)]"
  by (simp add: all_transitions_def add_transition_def Transition_init_def update_state_def
      State_init_def empty_heap_def set_union_def dict_get_def transitionsin_def Let_def
      remove_transitions_to_targets_def remove_step_def first_sym_def)

section \<open>Properties of the traversal\<close>

text \<open>Costs are linearly ordered, and adding a cost is monotone.\<close>

lemma cost_le_refl: "u \<le> u" for u :: cost
  by (cases u; simp)

lemma cost_le_trans: "u \<le> v \<Longrightarrow> v \<le> w \<Longrightarrow> u \<le> w" for u v w :: cost
  by (cases u; cases v; cases w; simp)

lemma cost_le_antisym: "u \<le> v \<Longrightarrow> v \<le> u \<Longrightarrow> u = v" for u v :: cost
  by (cases u; cases v; simp)

lemma cost_le_total: "u \<le> v \<or> v \<le> u" for u v :: cost
  by (cases u; cases v; auto)

instance cost :: linorder
  by standard
    (simp_all add: less_cost_def cost_le_refl cost_le_total, erule (1) cost_le_trans,
      erule (1) cost_le_antisym)

lemma cost_add_assoc: "(u + v) + w = u + (v + w)" for u v w :: cost
  by (cases u; cases v; cases w; simp)

lemma cost_add_commute: "u + v = v + u" for u v :: cost
  by (cases u; cases v; simp)

lemma cost_add_zero: "0 + u = u" for u :: cost
  by (cases u; simp add: zero_cost_def)

lemma cost_add_mono: "u \<le> v \<Longrightarrow> w + u \<le> w + v" for u v w :: cost
  by (cases u; cases v; cases w; simp)

instance cost :: ordered_comm_monoid_add
  by standard
    (rule cost_add_assoc, rule cost_add_commute, rule cost_add_zero, erule cost_add_mono)

lemma concat_tokenize_loop:
  "start \<le> length word \<Longrightarrow>
   concat (tokenize_loop A word tokens start) = concat tokens @ drop start word"
proof (induction "length word - start" arbitrary: tokens start rule: less_induct)
  case less
  show ?case
  proof (cases "start < length word")
    case True
    let ?t = "longest_token A word start"
    have lt: "?t = take (length ?t) (drop start word) \<and> start + length ?t \<le> length word"
    proof (cases "matches A (drop start word) (length word - start) = {}")
      case e: True
      then show ?thesis using True by (simp add: longest_token_eq take_Suc hd_drop_conv_nth)
    next
      case ne: False
      let ?m = "Max (matches A (drop start word) (length word - start))"
      have "?m \<in> matches A (drop start word) (length word - start)"
        using ne finite_matches by (rule_tac Max_in) auto
      then have "?m \<le> length word - start" by (rule matches_le)
      then show ?thesis using True ne by (auto simp: longest_token_eq min_def)
    qed
    have len: "1 \<le> length ?t" using True by (rule longest_token_length)
    have "concat (tokenize_loop A word tokens start) =
          concat (tokenize_loop A word (tokens @ [?t]) (start + length ?t))"
      using True by (simp add: tokenize_loop_step [symmetric])
    also have "\<dots> = concat (tokens @ [?t]) @ drop (start + length ?t) word"
      by (rule less) (use len True lt in auto)
    also have "\<dots> = concat tokens @ (take (length ?t) (drop start word) @ drop (length ?t) (drop start word))"
      using lt by (simp add: add.commute)
    finally show ?thesis by (simp only: append_take_drop_id)
  next
    case False
    with less.prems show ?thesis by (simp add: tokenize_loop_done)
  qed
qed

lemma concat_tokenize: "concat (tokenize_against_alphabet A word) = word"
  by (simp add: tokenize_against_alphabet_def concat_tokenize_loop)

lemma tokenize_single:
  assumes "x \<noteq> []"
  shows "tokenize_against_alphabet {x} x = [x]"
proof -
  have m: "matches {x} x (length x) = {length x}"
    using assms by (auto simp: matches_def Suc_le_eq)
  have lt: "longest_token {x} x 0 = x"
    using assms by (simp add: longest_token_eq m)
  show ?thesis
    using tokenize_unfold [OF assms, of "{x}"] tokenize_longest_match [of "{x}"]
    by (simp add: lt)
qed

lemma heappop_single: "heappop [a] = (a, [])"
  by (simp add: heappop_def smallest_def)

lemma acceptor_init:
  assumes "x \<noteq> []" and "FST_init (Some [x]) 0 alph h0 = (A, h)"
  shows "A = \<lparr>alphabet = {x}, initialstate = next_sid h0,
              states = {Suc (next_sid h0), next_sid h0}, finalstates = {Suc (next_sid h0)}\<rparr>"
    and "all_transitions h (next_sid h0) = [([x], next_tid h0)]"
    and "all_transitions h (Suc (next_sid h0)) = []"
    and "trans_of h (next_tid h0) = \<lparr>targetstate = Suc (next_sid h0), label = [x], weight = 0\<rparr>"
    and "finalweight (state_of h (Suc (next_sid h0))) = 0"
  using assms
  by (auto simp: FST_init_def State_init_def update_state_def add_transition_def
      Transition_init_def all_transitions_def set_union_def dict_get_def Let_def)

lemma cost_zero_add [simp]: "(0::cost) + 0 = 0"
  by simp


lemma apply_turn_empty: "apply_turn fo A h opts w ([], c) = Stop"
  by (simp add: apply_turn_def)

lemma apply_run_empty: "apply_run fo A h opts w (Suc n) ([], c) = ([], Exhausted)"
  by (simp add: apply_turn_def)

lemma acceptor_run:
  assumes x: "x \<noteq> []" "x \<noteq> ''.''" "\<not> is_flag fo x"
    and init: "FST_init (Some [x]) 0 alph h0 = (A, h)"
    and dir: "\<not> inverse opts"
  shows "apply_run fo A h opts w (Suc (Suc (Suc (Suc n)))) ([(0, 0, 0, [], Some (initialstate A))], 1) =
         (if w = [x] \<and> (\<not> obey_flags opts \<or> flag_filter fo {x} [x])
          then [((0, - 1, 2, [x], None), make_result fo opts 0 [x])] else [], Exhausted)"
proof -
  let ?s0 = "next_sid h0" and ?s1 = "Suc (next_sid h0)" and ?t0 = "next_tid h0"
  note sh = acceptor_init [OF x(1) init]
  have A: "alphabet A = {x}" "initialstate A = ?s0" "finalstates A = {?s1}"
    by (simp_all add: sh(1))
  have li: "label_in False [x] = Some x" "label_out False [x] = Some x"
    by (simp_all add: label_in_def label_out_def first_sym_def last_sym_def)
  let ?match = "w \<noteq> [] \<and> w ! 0 = x"
  have turn1: "\<And>k c. apply_turn fo A h opts w ([(0, 0, k, [], Some ?s0)], c) =
        Continue (if ?match then ([(0, - 1, c, [x], Some ?s1)], Suc c) else ([], c))"
    using x dir
    by (simp add: apply_turn_def heappop_single A sh follow_def li heappush_def Let_def)
  have turn2: "\<And>k c. apply_turn fo A h opts w ([(0, - 1, k, [x], Some ?s1)], c) =
        Continue ([(0, - 1, c, [x], None)], Suc c)"
    by (simp add: apply_turn_def heappop_single A sh heappush_def Let_def)
  have turn3: "\<And>k c. apply_turn fo A h opts w ([(0, - 1, k, [x], None)], c) =
        (if length w = 1 \<and> (\<not> obey_flags opts \<or> flag_filter fo {x} [x])
         then Yield (0, - 1, k, [x], None) (make_result fo opts 0 [x]) ([], c)
         else Continue ([], c))"
    by (simp add: apply_turn_def heappop_single A)
  have one: "w = [x] \<longleftrightarrow> ?match \<and> length w = 1"
    by (cases w) auto
  show ?thesis
  proof (cases ?match)
    case True
    then show ?thesis
      by (simp add: A turn1 turn2 turn3 one apply_turn_empty)
  next
    case False
    then have ne: "w \<noteq> [x]" by auto
    have "\<And>k c. apply_turn fo A h opts w ([(0, 0, k, [], Some ?s0)], c) = Continue ([], c)"
      using False by (simp only: turn1 if_False)
    with ne show ?thesis
      by (simp add: A apply_turn_empty)
  qed
qed

text \<open>
  Claim C8, as the code has it. For a non-empty symbol \<open>x\<close> that is neither the
  wildcard \<open>"."\<close> nor a flag diacritic, the acceptor \<open>FST(label=(x,))\<close> accepts
  exactly the string \<open>x\<close>: with four or more turns of the loop, \<open>generate(x)\<close> has
  yielded exactly one result, of cost 0, and is exhausted, and \<open>generate(w)\<close> is
  exhausted without a result for every other string \<open>w\<close>. The flag filter is assumed
  to accept the flag-free output \<open>[x]\<close> and \<open>filter_flags\<close> to leave it as it is.
\<close>

theorem single_symbol_acceptor:
  assumes "x \<noteq> []" and "x \<noteq> ''.''" and "\<not> is_flag fo x"
    and "FST_init (Some [x]) 0 {} h0 = (A, h)"
    and "obey_flags opts \<longrightarrow> flag_filter fo {x} [x]"
    and "\<not> print_flags opts \<longrightarrow> filter_flags fo [x] = [x]"
    and "4 \<le> n"
  shows "generate fo A h opts x n =
           ([((0, - 1, 2, [x], None),
              (if tokenize_outputs opts then Toks [x] else Str x,
               if weights opts then Some 0 else None))], Exhausted) \<and>
         (\<forall>word. word \<noteq> x \<longrightarrow> generate fo A h opts word n = ([], Exhausted))"
proof -
  from \<open>4 \<le> n\<close> obtain k where "n = 4 + k"
    by (auto simp: le_iff_add)
  then have n: "n = Suc (Suc (Suc (Suc k)))" by simp
  let ?opts = "opts\<lparr>inverse := False\<rparr>"
  have alph: "alphabet A = {x}"
    using acceptor_init(1) [OF assms(1) assms(4)] by simp
  have run: "\<And>word. generate fo A h opts word n =
      (if tokenize_against_alphabet {x} word = [x] \<and> (\<not> obey_flags opts \<or> flag_filter fo {x} [x])
       then [((0, - 1, 2, [x], None), make_result fo ?opts 0 [x])] else [], Exhausted)"
    unfolding generate_def FST_apply_def alph n
    using acceptor_run [OF assms(1,2,3,4), of ?opts] by simp
  have tok: "\<And>word. tokenize_against_alphabet {x} word = [x] \<longleftrightarrow> word = x"
  proof
    fix word
    assume "tokenize_against_alphabet {x} word = [x]"
    then have "concat (tokenize_against_alphabet {x} word) = x" by simp
    then show "word = x" by (simp add: concat_tokenize)
  next
    fix word
    assume "word = x"
    then show "tokenize_against_alphabet {x} word = [x]"
      using assms(1) by (simp add: tokenize_single)
  qed
  have res: "make_result fo ?opts 0 [x] =
      (if tokenize_outputs opts then Toks [x] else Str x, if weights opts then Some 0 else None)"
    using assms(6) by (simp add: make_result_def Let_def)
  show ?thesis
    using assms(5) by (simp add: run tok res)
qed

theorem single_symbol_acceptor_witness:
  "''a'' \<noteq> [] \<and> ''a'' \<noteq> ''.'' \<and> \<not> is_flag no_flags ''a'' \<and>
   flag_filter no_flags {''a''} [''a''] \<and> filter_flags no_flags [''a''] = [''a''] \<and>
   (4::nat) \<le> 4 \<and>
   generate no_flags (fst (FST_init (Some [''a'']) 0 {} empty_heap))
       (snd (FST_init (Some [''a'']) 0 {} empty_heap)) default_options ''a'' 4 =
     ([((0, - 1, 2, [''a''], None), (Str ''a'', None))], Exhausted) \<and>
   generate no_flags (fst (FST_init (Some [''a'']) 0 {} empty_heap))
       (snd (FST_init (Some [''a'']) 0 {} empty_heap)) default_options ''b'' 4 =
     ([], Exhausted)"
proof -
  have a: "\<not> is_flag no_flags ''a''"
    and b: "obey_flags default_options \<longrightarrow> flag_filter no_flags {''a''} [''a'']"
    and c: "\<not> print_flags default_options \<longrightarrow> filter_flags no_flags [''a''] = [''a'']"
    and d: "tokenize_outputs default_options = False" "weights default_options = False"
    by (simp_all add: no_flags_def default_options_def)
  have e: "FST_init (Some [''a'']) 0 {} empty_heap =
       (fst (FST_init (Some [''a'']) 0 {} empty_heap), snd (FST_init (Some [''a'']) 0 {} empty_heap))"
    by simp
  have f: "''a'' \<noteq> []" "''a'' \<noteq> ''.''" "(4::nat) \<le> 4" "''b'' \<noteq> ''a''" by simp_all
  show ?thesis
    using single_symbol_acceptor [OF f(1) f(2) a e b c f(3)] a b c f d
    by (simp add: no_flags_def)
qed

text \<open>
  The claim as stated fails for the wildcard symbol: the acceptor built from the label
  \<open>(".",)\<close> also accepts the string \<open>"z"\<close>, since a token outside the alphabet is
  matched by a \<open>"."\<close> transition and copied to the output.
\<close>

theorem single_symbol_acceptor_counterexample:
  "''z'' \<noteq> ''.'' \<and>
   results (generate no_flags (fst (FST_init (Some [''.'']) 0 {} empty_heap))
       (snd (FST_init (Some [''.'']) 0 {} empty_heap)) default_options ''z'' 4) =
     [(Str ''z'', None)]"
proof -
  let ?A = "fst (FST_init (Some [''.'']) 0 {} empty_heap)"
  let ?h = "snd (FST_init (Some [''.'']) 0 {} empty_heap)"
  let ?opts = "default_options\<lparr>inverse := False\<rparr>"
  have init: "FST_init (Some [''.'']) 0 {} empty_heap = (?A, ?h)" by simp
  have ne: "''.'' \<noteq> []" by simp
  note sh = acceptor_init [OF ne init]
  have z: "next_sid empty_heap = 0" "next_tid empty_heap = 0" by (simp_all add: empty_heap_def)
  have A: "alphabet ?A = {''.''}" "initialstate ?A = 0" "finalstates ?A = {Suc 0}"
    using sh(1) by (simp_all add: z)
  have tok: "tokenize_against_alphabet {''.''} ''z'' = [''z'']"
    by (simp add: tokenize_against_alphabet_def tokenize_loop.simps longest_token_def slice_def)
  have li: "label_in False [''.''] = Some ''.''" "label_out False [''.''] = Some ''.''"
    by (simp_all add: label_in_def label_out_def first_sym_def last_sym_def)
  have o: "inverse ?opts = False" "obey_flags ?opts = True" "print_flags ?opts = False"
    "weights ?opts = False" "tokenize_outputs ?opts = False"
    by (simp_all add: default_options_def)
  have f: "is_flag no_flags ''.'' = False" "flag_filter no_flags {''.''} [''z''] = True"
    "filter_flags no_flags [''z''] = [''z'']"
    by (simp_all add: no_flags_def)
  have turn1: "\<And>k c. apply_turn no_flags ?A ?h ?opts [''z''] ([(0, 0, k, [], Some 0)], c) =
        Continue ([(0, - 1, c, [''z''], Some (Suc 0))], Suc c)"
    using sh(2-5) by (simp add: apply_turn_def heappop_single A z follow_def li heappush_def Let_def o f)
  have turn2: "\<And>k c. apply_turn no_flags ?A ?h ?opts [''z''] ([(0, - 1, k, [''z''], Some (Suc 0))], c) =
        Continue ([(0, - 1, c, [''z''], None)], Suc c)"
    using sh(2-5) by (simp add: apply_turn_def heappop_single A z heappush_def Let_def o)
  have turn3: "\<And>k c. apply_turn no_flags ?A ?h ?opts [''z''] ([(0, - 1, k, [''z''], None)], c) =
         Yield (0, - 1, k, [''z''], None) (Str ''z'', None) ([], c)"
    by (simp add: apply_turn_def heappop_single A o f make_result_def)
  have "apply_run no_flags ?A ?h ?opts [''z''] (Suc (Suc (Suc (Suc 0)))) ([(0, 0, 0, [], Some 0)], 1) =
        ([((0, - 1, 2, [''z''], None), (Str ''z'', None))], Exhausted)"
    by (simp add: turn1 turn2 turn3 apply_turn_empty)
  then show ?thesis
    by (simp add: generate_def FST_apply_def results_def tok A numeral_eq_Suc)
qed

lemma item_simps [simp]:
  "item_cost (c, n, k, ou, s) = c" "item_negpos (c, n, k, ou, s) = n"
  "item_counter (c, n, k, ou, s) = k" "item_output (c, n, k, ou, s) = ou"
  "item_state (c, n, k, ou, s) = s"
  by (simp_all add: item_cost_def item_negpos_def item_counter_def item_output_def item_state_def)

lemma item_less_iff:
  "item_less a b \<longleftrightarrow>
     item_cost a < item_cost b \<or>
     (item_cost a = item_cost b \<and>
        (item_negpos a < item_negpos b \<or>
         (item_negpos a = item_negpos b \<and> item_counter a < item_counter b)))"
  by (cases a; cases b) (simp add: item_less_def)

lemma item_less_trans: "item_less a b \<Longrightarrow> item_less b c \<Longrightarrow> item_less a c"
  unfolding item_less_iff by auto


lemma item_less_irrefl: "\<not> item_less a a"
  unfolding item_less_iff by auto

lemma item_less_asym: "item_less a b \<Longrightarrow> \<not> item_less b a"
  unfolding item_less_iff by auto

lemma smallest_in: "smallest x xs \<in> set (x # xs)"
  unfolding smallest_def
proof (induction xs arbitrary: x)
  case Nil
  show ?case by simp
next
  case (Cons a xs)
  show ?case using Cons.IH [of a] Cons.IH [of x] by auto
qed

lemma smallest_least_aux:
  "\<forall>y \<in> S. \<not> item_less y x \<Longrightarrow>
   \<forall>y \<in> S \<union> {x} \<union> set xs. \<not> item_less y (foldl (\<lambda>m y. if item_less y m then y else m) x xs)"
proof (induction xs arbitrary: x S)
  case Nil
  then show ?case by (simp add: item_less_irrefl)
next
  case (Cons a xs)
  let ?f = "\<lambda>m y. if item_less y m then y else m"
  show ?case
  proof (cases "item_less a x")
    case True
    have "\<forall>y \<in> S \<union> {x}. \<not> item_less y a"
      using Cons.prems True item_less_trans item_less_asym by blast
    then have "\<forall>y \<in> (S \<union> {x}) \<union> {a} \<union> set xs. \<not> item_less y (foldl ?f a xs)"
      by (rule Cons.IH)
    with True show ?thesis by simp
  next
    case False
    with Cons.prems have "\<forall>y \<in> S \<union> {a}. \<not> item_less y x" by simp
    then have "\<forall>y \<in> (S \<union> {a}) \<union> {x} \<union> set xs. \<not> item_less y (foldl ?f x xs)"
      by (rule Cons.IH)
    with False show ?thesis by simp
  qed
qed

lemma smallest_least: "y \<in> set (x # xs) \<Longrightarrow> \<not> item_less y (smallest x xs)"
  using smallest_least_aux [of "{}" x xs] by (auto simp: smallest_def)



lemma upt_cons_shift: "[k ..< k + Suc n] = k # [Suc k ..< Suc k + n]"
  using upt_conv_Cons [of k "k + Suc n"] by simp

lemma follow_push:
  assumes "follow fo A h iv w c np ou (Q, k) lt = Inr (Q', k')"
  shows "(Q' = Q \<and> k' = k) \<or>
         (\<exists>e. Q' = Q @ [e] \<and> k' = Suc k \<and> item_counter e = k \<and>
              item_cost e = c + weight (trans_of h (snd lt)))"
  using assms
  by (auto simp: follow_def heappush_def Let_def split: option.splits if_splits)

lemma follow_all_push:
  assumes "follow_all fo A h iv w c np ou (Q, k) lts = Inr (Q', k')"
  shows "\<exists>new. Q' = Q @ new \<and> k' = k + length new \<and>
           map item_counter new = [k ..< k + length new] \<and>
           (\<forall>e \<in> set new. \<exists>lt \<in> set lts. item_cost e = c + weight (trans_of h (snd lt)))"
  using assms
proof (induction lts arbitrary: Q k)
  case Nil
  then show ?case by simp
next
  case (Cons lt lts)
  from Cons.prems obtain Q1 k1 where
    f: "follow fo A h iv w c np ou (Q, k) lt = Inr (Q1, k1)"
    and r: "follow_all fo A h iv w c np ou (Q1, k1) lts = Inr (Q', k')"
    by (auto split: sum.splits)
  from Cons.IH [OF r] obtain new where new:
    "Q' = Q1 @ new" "k' = k1 + length new" "map item_counter new = [k1 ..< k1 + length new]"
    "\<forall>e \<in> set new. \<exists>lt \<in> set lts. item_cost e = c + weight (trans_of h (snd lt))"
    by blast
  from follow_push [OF f] show ?case
  proof
    assume "Q1 = Q \<and> k1 = k"
    with new show ?thesis by auto
  next
    assume "\<exists>e. Q1 = Q @ [e] \<and> k1 = Suc k \<and> item_counter e = k \<and>
              item_cost e = c + weight (trans_of h (snd lt))"
    then obtain e where e: "Q1 = Q @ [e]" "k1 = Suc k" "item_counter e = k"
      "item_cost e = c + weight (trans_of h (snd lt))" by blast
    have "[k ..< k + length (e # new)] = k # [Suc k ..< Suc k + length new]"
      using upt_cons_shift [of k "length new"] by simp
    then have "map item_counter (e # new) = [k ..< k + length (e # new)]"
      using e(2,3) new(3) by (simp only: list.map)
    moreover have "Q' = Q @ (e # new)" "k' = k + length (e # new)"
      using e new by simp_all
    moreover have "\<forall>x \<in> set (e # new). \<exists>l \<in> set (lt # lts).
        item_cost x = c + weight (trans_of h (snd l))"
      using e(4) new(4) by auto
    ultimately show ?thesis by blast
  qed
qed

lemma apply_turn_cases:
  assumes "fst qc \<noteq> []"
  shows "(\<exists>m. m = fst (heappop (fst qc)) \<and> item_state m = None \<and>
              item_negpos m = - int (length w) \<and>
              apply_turn fo A h opts w qc =
                Yield m (make_result fo opts (item_cost m) (item_output m))
                  (snd (heappop (fst qc)), snd qc)) \<or>
         (\<exists>new. apply_turn fo A h opts w qc =
                  Continue (snd (heappop (fst qc)) @ new, snd qc + length new) \<and>
              map item_counter new = [snd qc ..< snd qc + length new] \<and>
              (\<forall>e \<in> set new. pushed_by A h (fst (heappop (fst qc))) e)) \<or>
         (\<exists>e. apply_turn fo A h opts w qc = Raise e)"
proof -
  obtain c np k ou st Q1 where pop: "heappop (fst qc) = ((c, np, k, ou, st), Q1)"
    by (metis prod_cases5 surj_pair)
  show ?thesis
  proof (cases "st = None \<and> - np = int (length w) \<and>
             (\<not> obey_flags opts \<or> flag_filter fo (alphabet A) ou)")
    case True
    then have "apply_turn fo A h opts w qc =
        Yield (c, np, k, ou, st) (make_result fo opts c ou) (Q1, snd qc)"
      using assms by (simp add: apply_turn_def pop)
    with True show ?thesis by (auto simp: pop)
  next
    case False
    show ?thesis
    proof (cases st)
      case None
      with False have "apply_turn fo A h opts w qc = Continue (Q1 @ [], snd qc + length ([]::qitem list))"
        using assms by (auto simp: apply_turn_def pop)
      then show ?thesis unfolding pop by (intro disjI2 disjI1 exI [of _ "[]"]) simp
    next
      case (Some s)
      let ?fin = "if s \<in> finalstates A
                  then [(c + finalweight (state_of h s), np, snd qc, ou, None :: sid option)]
                  else ([] :: qitem list)"
      let ?qc1 = "(Q1 @ ?fin, snd qc + length ?fin)"
      have t: "apply_turn fo A h opts w qc =
           (case follow_all fo A h (inverse opts) w c np ou ?qc1 (all_transitions h s) of
              Inl e \<Rightarrow> Raise e | Inr qc2 \<Rightarrow> Continue qc2)"
        using assms False Some by (simp add: apply_turn_def pop heappush_def Let_def)
      show ?thesis
      proof (cases "follow_all fo A h (inverse opts) w c np ou ?qc1 (all_transitions h s)")
        case (Inl e)
        with t show ?thesis by simp
      next
        case (Inr qc2)
        obtain Q2 k2 where qc2: "qc2 = (Q2, k2)" by (cases qc2)
        from follow_all_push [OF Inr [unfolded qc2]] obtain new where new:
          "Q2 = (Q1 @ ?fin) @ new" "k2 = (snd qc + length ?fin) + length new"
          "map item_counter new = [snd qc + length ?fin ..< snd qc + length ?fin + length new]"
          "\<forall>e \<in> set new. \<exists>lt \<in> set (all_transitions h s).
              item_cost e = c + weight (trans_of h (snd lt))"
          by blast
        let ?all = "?fin @ new"
        have a: "apply_turn fo A h opts w qc = Continue (Q1 @ ?all, snd qc + length ?all)"
          using t Inr qc2 new(1,2) by simp
        have b: "map item_counter ?all = [snd qc ..< snd qc + length ?all]"
        proof (cases "s \<in> finalstates A")
          case True
          have "[snd qc ..< snd qc + Suc (length new)] =
                snd qc # [Suc (snd qc) ..< Suc (snd qc) + length new]"
            by (rule upt_cons_shift)
          with True new(3) show ?thesis by simp
        next
          case False
          with new(3) show ?thesis by simp
        qed
        have c: "\<forall>e \<in> set ?all. pushed_by A h (c, np, k, ou, st) e"
        proof
          fix e assume "e \<in> set ?all"
          then consider "s \<in> finalstates A" "e = (c + finalweight (state_of h s), np, snd qc, ou, None)"
            | "e \<in> set new" by (auto split: if_splits)
          then show "pushed_by A h (c, np, k, ou, st) e"
          proof cases
            case 1
            then show ?thesis unfolding pushed_by_def using Some by auto
          next
            case 2
            with new(4) obtain lt where "lt \<in> set (all_transitions h s)"
              "item_cost e = c + weight (trans_of h (snd lt))" by blast
            then show ?thesis unfolding pushed_by_def using Some by auto
          qed
        qed
        show ?thesis
          unfolding pop using a b c by (intro disjI2 disjI1 exI [of _ ?all]) simp
      qed
    qed
  qed
qed

lemma heappop_cost_least:
  assumes "Q \<noteq> []" and "y \<in> set Q"
  shows "item_cost (fst (heappop Q)) \<le> item_cost y"
proof -
  from assms(1) obtain x xs where Q: "Q = x # xs" by (cases Q) auto
  have "\<not> item_less y (fst (heappop Q))"
    using smallest_least [of y x xs] assms(2) by (simp add: heappop_def Q)
  then show ?thesis unfolding item_less_iff by auto
qed

lemma heappop_rest_subset: "set (snd (heappop Q)) \<subseteq> set Q"
  by (simp add: heappop_def set_remove1_subset)

lemma heappop_in: "Q \<noteq> [] \<Longrightarrow> fst (heappop Q) \<in> set Q"
  using smallest_in [of "hd Q" "tl Q"] by (cases Q) (simp_all add: heappop_def)

lemma distinct_map_remove:
  "distinct (map f xs) \<Longrightarrow> distinct (map f (remove1 x xs))"
proof (induction xs)
  case Nil
  show ?case by simp
next
  case (Cons a xs)
  have "f ` set (remove1 x xs) \<subseteq> f ` set xs"
    using set_remove1_subset [of x xs] by blast
  with Cons show ?case by auto
qed

lemma counters_ok_pop:
  assumes "counters_ok (Q, k)" and "Q \<noteq> []"
  shows "counters_ok (snd (heappop Q), k)"
    and "fst (heappop Q) \<notin> set (snd (heappop Q))"
    and "item_counter (fst (heappop Q)) < k"
proof -
  have d: "distinct Q" using assms(1) by (auto simp: counters_ok_def distinct_map)
  have dm: "distinct (map item_counter (remove1 (fst (heappop Q)) Q))"
    using assms(1) by (simp add: counters_ok_def distinct_map_remove)
  show "counters_ok (snd (heappop Q), k)"
    using assms(1) dm heappop_rest_subset [of Q]
    by (auto simp: counters_ok_def heappop_def)
  show "fst (heappop Q) \<notin> set (snd (heappop Q))"
    using d by (simp add: heappop_def)
  show "item_counter (fst (heappop Q)) < k"
    using assms heappop_in [of Q] by (auto simp: counters_ok_def)
qed

lemma counters_range:
  assumes "map item_counter new = [k ..< k + length new]" and "e \<in> set new"
  shows "k \<le> item_counter e \<and> item_counter e < k + length new"
proof -
  have "item_counter e \<in> set (map item_counter new)" using assms(2) by simp
  then have "item_counter e \<in> set [k ..< k + length new]" by (simp only: assms(1))
  then show ?thesis by simp
qed

lemma counters_ok_push:
  assumes "counters_ok (Q, k)" and "map item_counter new = [k ..< k + length new]"
  shows "counters_ok (Q @ new, k + length new)"
proof -
  have new: "\<forall>e \<in> set new. k \<le> item_counter e \<and> item_counter e < k + length new"
    using counters_range [OF assms(2)] by blast
  have "distinct (map item_counter new)" using assms(2) by simp
  moreover have "set (map item_counter Q) \<inter> set (map item_counter new) = {}"
    using assms(1) new by (fastforce simp: counters_ok_def)
  ultimately have "distinct (map item_counter (Q @ new))"
    using assms(1) by (simp add: counters_ok_def)
  moreover have "\<forall>e \<in> set (Q @ new). item_counter e < k + length new"
    using assms(1) new by (fastforce simp: counters_ok_def)
  ultimately show ?thesis by (simp add: counters_ok_def)
qed

text \<open>The entries a run yields come from the queue or are pushed later.\<close>

lemma apply_run_yields_from:
  assumes "counters_ok qc"
  shows "\<forall>y \<in> set (fst (apply_run fo A h opts w n qc)).
           (fst y \<in> set (fst qc) \<or> snd qc \<le> item_counter (fst y)) \<and>
           item_state (fst y) = None \<and> item_negpos (fst y) = - int (length w) \<and>
           snd y = make_result fo opts (item_cost (fst y)) (item_output (fst y))"
  using assms
proof (induction n arbitrary: qc)
  case 0
  show ?case by simp
next
  case (Suc n)
  obtain Q k where qc: "qc = (Q, k)" by (cases qc)
  show ?case
  proof (cases "Q = []")
    case True
    then show ?thesis by (simp add: qc apply_turn_def)
  next
    case False
    then have ne: "fst qc \<noteq> []" by (simp add: qc)
    have ok1: "counters_ok (snd (heappop Q), k)"
      using Suc.prems False counters_ok_pop(1) by (simp add: qc)
    from apply_turn_cases [OF ne, of w fo A h opts]
    consider
      (yield) m where "m = fst (heappop Q)" "item_state m = None"
        "item_negpos m = - int (length w)"
        "apply_turn fo A h opts w qc =
           Yield m (make_result fo opts (item_cost m) (item_output m)) (snd (heappop Q), k)"
    | (continue) new where
        "apply_turn fo A h opts w qc = Continue (snd (heappop Q) @ new, k + length new)"
        "map item_counter new = [k ..< k + length new]"
    | (raise) e where "apply_turn fo A h opts w qc = Raise e"
      unfolding qc by auto
    then show ?thesis
    proof cases
      case yield
      have ih: "\<forall>y \<in> set (fst (apply_run fo A h opts w n (snd (heappop Q), k))).
           (fst y \<in> set (snd (heappop Q)) \<or> k \<le> item_counter (fst y)) \<and>
           item_state (fst y) = None \<and> item_negpos (fst y) = - int (length w) \<and>
           snd y = make_result fo opts (item_cost (fst y)) (item_output (fst y))"
        using Suc.IH [OF ok1] by simp
      have "m \<in> set Q" using yield(1) False by (simp add: heappop_in)
      with ih yield heappop_rest_subset [of Q] show ?thesis
        by (auto simp: qc split: prod.splits)
    next
      case continue
      have ok2: "counters_ok (snd (heappop Q) @ new, k + length new)"
        using ok1 continue(2) by (rule counters_ok_push)
      have ih: "\<forall>y \<in> set (fst (apply_run fo A h opts w n (snd (heappop Q) @ new, k + length new))).
           (fst y \<in> set (snd (heappop Q) @ new) \<or> k + length new \<le> item_counter (fst y)) \<and>
           item_state (fst y) = None \<and> item_negpos (fst y) = - int (length w) \<and>
           snd y = make_result fo opts (item_cost (fst y)) (item_output (fst y))"
        using Suc.IH [OF ok2] by simp
      have new: "\<forall>e \<in> set new. k \<le> item_counter e"
        using counters_range [OF continue(2)] by blast
      show ?thesis
      proof
        fix y assume "y \<in> set (fst (apply_run fo A h opts w (Suc n) qc))"
        then have y: "y \<in> set (fst (apply_run fo A h opts w n (snd (heappop Q) @ new, k + length new)))"
          using continue(1) by simp
        with ih have a: "fst y \<in> set (snd (heappop Q) @ new) \<or> k + length new \<le> item_counter (fst y)"
          and b: "item_state (fst y) = None \<and> item_negpos (fst y) = - int (length w) \<and>
           snd y = make_result fo opts (item_cost (fst y)) (item_output (fst y))"
          by blast+
        from a have "fst y \<in> set Q \<or> k \<le> item_counter (fst y)"
          using new heappop_rest_subset [of Q] by auto
        with b show "(fst y \<in> set (fst qc) \<or> snd qc \<le> item_counter (fst y)) \<and>
           item_state (fst y) = None \<and> item_negpos (fst y) = - int (length w) \<and>
           snd y = make_result fo opts (item_cost (fst y)) (item_output (fst y))"
          by (simp add: qc)
      qed
    next
      case raise
      then show ?thesis by simp
    qed
  qed
qed





lemma item_config_simp [simp]: "item_config (c, n, k, ou, s) = (c, n, ou, s)"
  by (simp add: item_config_def)

lemma follow_keeps:
  assumes "follow fo A h iv w c np ou (Q, k) lt = Inr (Q', k')"
  shows "set Q \<subseteq> set Q'"
  using follow_push [OF assms] by auto

lemma follow_complete:
  assumes "follow fo A h iv w c np ou (Q, k) lt = Inr (Q', k')"
    and "trans_step fo A h iv w lt (c, np, ou) cfg"
  shows "\<exists>e \<in> set Q'. item_config e = cfg"
  using assms
  by (auto simp: trans_step.simps follow_def heappush_def Let_def split: if_splits)

lemma follow_all_keeps:
  assumes "follow_all fo A h iv w c np ou (Q, k) lts = Inr (Q', k')"
  shows "set Q \<subseteq> set Q'"
  using follow_all_push [OF assms] by auto

lemma follow_all_complete:
  assumes "follow_all fo A h iv w c np ou (Q, k) lts = Inr (Q', k')"
    and "lt \<in> set lts" and "trans_step fo A h iv w lt (c, np, ou) cfg"
  shows "\<exists>e \<in> set Q'. item_config e = cfg"
  using assms(1,2)
proof (induction lts arbitrary: Q k)
  case Nil
  then show ?case by simp
next
  case (Cons a lts)
  from Cons.prems(1) obtain Q1 k1 where
    f: "follow fo A h iv w c np ou (Q, k) a = Inr (Q1, k1)"
    and r: "follow_all fo A h iv w c np ou (Q1, k1) lts = Inr (Q', k')"
    by (auto split: sum.splits)
  show ?case
  proof (cases "lt = a")
    case True
    with follow_complete [OF f] assms(3) obtain e where "e \<in> set Q1" "item_config e = cfg"
      by blast
    with follow_all_keeps [OF r] show ?thesis by blast
  next
    case False
    with Cons.prems(2) have "lt \<in> set lts" by simp
    with Cons.IH [OF r] show ?thesis by blast
  qed
qed

lemma path_step_stopped: "\<not> path_step fo A h iv w (c, np, ou, None) cfg"
  by (auto elim: path_step.cases)

lemma apply_turn_complete:
  assumes ne: "fst qc \<noteq> []"
    and st: "path_step fo A h (inverse opts) w (item_config (fst (heappop (fst qc)))) cfg"
    and cont: "apply_turn fo A h opts w qc = Continue qc'"
  shows "\<exists>e \<in> set (fst qc'). item_config e = cfg"
proof -
  obtain c np k ou st Q1 where pop: "heappop (fst qc) = ((c, np, k, ou, st), Q1)"
    by (metis prod_cases5 surj_pair)
  from st have ps: "path_step fo A h (inverse opts) w (c, np, ou, st) cfg" by (simp add: pop)
  then obtain s where s: "st = Some s"
    using path_step_stopped by (cases st) auto
  let ?fin = "if s \<in> finalstates A
              then [(c + finalweight (state_of h s), np, snd qc, ou, None :: sid option)]
              else ([] :: qitem list)"
  let ?qc1 = "(Q1 @ ?fin, snd qc + length ?fin)"
  have t: "apply_turn fo A h opts w qc =
       (case follow_all fo A h (inverse opts) w c np ou ?qc1 (all_transitions h s) of
          Inl e \<Rightarrow> Raise e | Inr qc2 \<Rightarrow> Continue qc2)"
    using ne s by (simp add: apply_turn_def pop heappush_def Let_def)
  with cont have fa: "follow_all fo A h (inverse opts) w c np ou ?qc1 (all_transitions h s) = Inr qc'"
    by (auto split: sum.splits)
  obtain Q' k' where qc': "qc' = (Q', k')" by (cases qc')
  from ps s consider
    (stop) "s \<in> finalstates A" "cfg = (c + finalweight (state_of h s), np, ou, None)"
  | (move) lt where "lt \<in> set (all_transitions h s)"
      "trans_step fo A h (inverse opts) w lt (c, np, ou) cfg"
    by (auto simp: path_step.simps)
  then show ?thesis
  proof cases
    case stop
    then have "(c + finalweight (state_of h s), np, snd qc, ou, None) \<in> set (Q1 @ ?fin)"
      by simp
    then have "(c + finalweight (state_of h s), np, snd qc, ou, None) \<in> set Q'"
      using follow_all_keeps [OF fa [unfolded qc']] by blast
    then have "\<exists>e \<in> set Q'. item_config e = (c + finalweight (state_of h s), np, ou, None)"
      by (rule bexI [rotated]) simp
    with stop show ?thesis by (simp add: qc')
  next
    case move
    with follow_all_complete [OF fa [unfolded qc']] show ?thesis by (simp add: qc')
  qed
qed

lemma apply_turn_yield_stopped:
  assumes "fst qc \<noteq> []" and "apply_turn fo A h opts w qc = Yield m r qc'"
  shows "m = fst (heappop (fst qc)) \<and> qc' = (snd (heappop (fst qc)), snd qc)"
  using assms
  by (auto simp: apply_turn_def Let_def split: prod.splits if_splits option.splits sum.splits)

lemma apply_turn_accepting_yields:
  assumes "fst qc \<noteq> []"
    and "item_config (fst (heappop (fst qc))) = (c, - int (length w), ou, None)"
    and "\<not> obey_flags opts \<or> flag_filter fo (alphabet A) ou"
  shows "\<exists>r. apply_turn fo A h opts w qc = Yield (fst (heappop (fst qc))) r (snd (heappop (fst qc)), snd qc)"
proof -
  obtain c' np k ou' st Q1 where pop: "heappop (fst qc) = ((c', np, k, ou', st), Q1)"
    by (metis prod_cases5 surj_pair)
  with assms(2) have "np = - int (length w)" "ou' = ou" "st = None" by simp_all
  with assms(1,3) show ?thesis by (simp add: apply_turn_def pop)
qed

lemma follow_sound:
  assumes "follow fo A h iv w c np ou (Q, k) lt = Inr (Q', k')" and "e \<in> set Q'"
  shows "e \<in> set Q \<or> trans_step fo A h iv w lt (c, np, ou) (item_config e)"
proof (cases "label_in iv (fst lt)")
  case None
  with assms(1) show ?thesis by (simp add: follow_def)
next
  case i: (Some i)
  show ?thesis
  proof (cases "label_out iv (fst lt)")
    case None
    with assms(1) i show ?thesis by (simp add: follow_def)
  next
    case o: (Some ou')
    obtain lbl t where lt: "lt = (lbl, t)" by (cases lt)
    show ?thesis
    proof (cases "i = '''' \<or> is_flag fo i")
      case True
      with assms i o have "e \<in> set Q \<or>
          item_config e = (c + weight (trans_of h t), np, ou @ [ou'], Some (targetstate (trans_of h t)))"
        by (auto simp: follow_def heappush_def Let_def lt)
      with trans_step.silent [of iv lbl i ou' fo A h w t c np ou] i o True show ?thesis
        by (auto simp: lt)
    next
      case False
      show ?thesis
      proof (cases "- np < int (length w) \<and>
                 (if w ! nat (- np) \<in> alphabet A then w ! nat (- np) else ''.'') = i")
        case m: True
        with assms i o False have "e \<in> set Q \<or>
          item_config e = (c + weight (trans_of h t), np - 1,
             ou @ [if i = ''.'' \<and> ou' = ''.'' then w ! nat (- np) else ou'],
             Some (targetstate (trans_of h t)))"
          by (auto simp: follow_def heappush_def Let_def lt)
        with trans_step.consume [of iv lbl i ou' fo np w A h t c ou] i o False m show ?thesis
          by (auto simp: lt)
      next
        case n: False
        with assms i o False have "e \<in> set Q"
          by (auto simp: follow_def heappush_def Let_def lt split: if_splits)
        then show ?thesis by simp
      qed
    qed
  qed
qed

lemma follow_all_sound:
  assumes "follow_all fo A h iv w c np ou (Q, k) lts = Inr (Q', k')" and "e \<in> set Q'"
  shows "e \<in> set Q \<or> (\<exists>lt \<in> set lts. trans_step fo A h iv w lt (c, np, ou) (item_config e))"
  using assms
proof (induction lts arbitrary: Q k)
  case Nil
  then show ?case by simp
next
  case (Cons a lts)
  from Cons.prems(1) obtain Q1 k1 where
    f: "follow fo A h iv w c np ou (Q, k) a = Inr (Q1, k1)"
    and r: "follow_all fo A h iv w c np ou (Q1, k1) lts = Inr (Q', k')"
    by (auto split: sum.splits)
  from Cons.IH [OF r Cons.prems(2)] show ?case
  proof
    assume "e \<in> set Q1"
    from follow_sound [OF f this] show ?thesis by auto
  next
    assume "\<exists>lt \<in> set lts. trans_step fo A h iv w lt (c, np, ou) (item_config e)"
    then show ?thesis by auto
  qed
qed

lemma apply_turn_sound:
  assumes ne: "fst qc \<noteq> []"
    and cont: "apply_turn fo A h opts w qc = Continue qc'"
    and e: "e \<in> set (fst qc')"
  shows "e \<in> set (snd (heappop (fst qc))) \<or>
         path_step fo A h (inverse opts) w (item_config (fst (heappop (fst qc)))) (item_config e)"
proof -
  obtain c np k ou st Q1 where pop: "heappop (fst qc) = ((c, np, k, ou, st), Q1)"
    by (metis prod_cases5 surj_pair)
  show ?thesis
  proof (cases st)
    case None
    with cont ne have "qc' = (Q1, snd qc)"
      by (auto simp: apply_turn_def pop split: if_splits)
    with e show ?thesis by (simp add: pop)
  next
    case (Some s)
    let ?fin = "if s \<in> finalstates A
                then [(c + finalweight (state_of h s), np, snd qc, ou, None :: sid option)]
                else ([] :: qitem list)"
    let ?qc1 = "(Q1 @ ?fin, snd qc + length ?fin)"
    have t: "apply_turn fo A h opts w qc =
         (case follow_all fo A h (inverse opts) w c np ou ?qc1 (all_transitions h s) of
            Inl e \<Rightarrow> Raise e | Inr qc2 \<Rightarrow> Continue qc2)"
      using ne Some by (simp add: apply_turn_def pop heappush_def Let_def)
    with cont have fa: "follow_all fo A h (inverse opts) w c np ou ?qc1 (all_transitions h s) = Inr qc'"
      by (auto split: sum.splits)
    obtain Q' k' where qc': "qc' = (Q', k')" by (cases qc')
    from follow_all_sound [OF fa [unfolded qc'], of e] e
    consider "e \<in> set Q1" | "e \<in> set ?fin"
      | lt where "lt \<in> set (all_transitions h s)"
          "trans_step fo A h (inverse opts) w lt (c, np, ou) (item_config e)"
      by (auto simp: qc')
    then show ?thesis
    proof cases
      case 1
      then show ?thesis by (simp add: pop)
    next
      case 2
      then have "s \<in> finalstates A" "item_config e = (c + finalweight (state_of h s), np, ou, None)"
        by (auto split: if_splits)
      with path_step.stop [of s A fo h "inverse opts" w c np ou] show ?thesis
        by (simp add: pop Some)
    next
      case 3
      with path_step.move [of lt h s fo A "inverse opts" w c np ou "item_config e"] show ?thesis
        by (simp add: pop Some)
    qed
  qed
qed

lemma apply_turn_yield_filter:
  assumes "fst qc \<noteq> []" and "apply_turn fo A h opts w qc = Yield m r qc'"
  shows "\<not> obey_flags opts \<or> flag_filter fo (alphabet A) (item_output m)"
proof -
  obtain c np k ou st Q1 where pop: "heappop (fst qc) = ((c, np, k, ou, st), Q1)"
    by (metis prod_cases5 surj_pair)
  from assms show ?thesis
    by (auto simp: apply_turn_def pop Let_def split: if_splits option.splits sum.splits)
qed

lemma item_config_parts:
  "fst (item_config e) = item_cost e" "snd (snd (snd (item_config e))) = item_state e"
  by (simp_all add: item_config_def)

lemma path_step_from:
  assumes "path_step fo A h iv w a b"
  shows "\<exists>s wt. snd (snd (snd a)) = Some s \<and> fst b = fst a + wt \<and>
           ((s \<in> finalstates A \<and> wt = finalweight (state_of h s) \<and> snd (snd (snd b)) = None) \<or>
            (\<exists>lt \<in> set (all_transitions h s). wt = weight (trans_of h (snd lt)) \<and>
               snd (snd (snd b)) = Some (targetstate (trans_of h (snd lt)))))"
  using assms by (fastforce simp: path_step.simps trans_step.simps)

lemma path_step_reachable:
  assumes "path_step fo A h iv w a b"
    and "\<forall>s. snd (snd (snd a)) = Some s \<longrightarrow> reachable A h s"
  shows "\<forall>s. snd (snd (snd b)) = Some s \<longrightarrow> reachable A h s"
proof -
  from path_step_from [OF assms(1)] obtain s where s: "snd (snd (snd a)) = Some s"
    and b: "snd (snd (snd b)) = None \<or>
       (\<exists>lt \<in> set (all_transitions h s). snd (snd (snd b)) = Some (targetstate (trans_of h (snd lt))))"
    by blast
  from s assms(2) have r: "reachable A h s" by simp
  from b show ?thesis
  proof
    assume "snd (snd (snd b)) = None"
    then show ?thesis by simp
  next
    assume "\<exists>lt \<in> set (all_transitions h s).
              snd (snd (snd b)) = Some (targetstate (trans_of h (snd lt)))"
    then obtain lt where "lt \<in> set (all_transitions h s)"
      "snd (snd (snd b)) = Some (targetstate (trans_of h (snd lt)))" by blast
    with reachable.target [OF r, of lt] show ?thesis by simp
  qed
qed

lemma path_step_cost:
  assumes "nonneg_weights A h" and "path_step fo A h iv w a b"
    and "\<forall>s. snd (snd (snd a)) = Some s \<longrightarrow> reachable A h s"
  shows "fst a \<le> fst b"
proof -
  from path_step_from [OF assms(2)] obtain s wt where s: "snd (snd (snd a)) = Some s"
    and ab: "fst b = fst a + wt"
    and wt: "(s \<in> finalstates A \<and> wt = finalweight (state_of h s)) \<or>
         (\<exists>lt \<in> set (all_transitions h s). wt = weight (trans_of h (snd lt)))"
    by blast
  from s assms(3) have "reachable A h s" by simp
  with wt assms(1) have "0 \<le> wt" unfolding nonneg_weights_def by blast
  then show ?thesis unfolding ab by (simp add: add_increasing2)
qed

lemma path_steps_cost:
  assumes "nonneg_weights A h" and "rtranclp (path_step fo A h iv w) a b"
    and "\<forall>s. snd (snd (snd a)) = Some s \<longrightarrow> reachable A h s"
  shows "fst a \<le> fst b \<and> (\<forall>s. snd (snd (snd b)) = Some s \<longrightarrow> reachable A h s)"
  using assms(2)
proof (induction rule: rtranclp_induct)
  case base
  show ?case using assms(3) by simp
next
  case (step y z)
  then have le: "fst a \<le> fst y"
    and ry: "\<forall>s. snd (snd (snd y)) = Some s \<longrightarrow> reachable A h s" by simp_all
  have "fst y \<le> fst z" using assms(1) step.hyps(2) ry by (rule path_step_cost)
  with le have "fst a \<le> fst z" by (rule order_trans)
  moreover have "\<forall>s. snd (snd (snd z)) = Some s \<longrightarrow> reachable A h s"
    using step.hyps(2) ry by (rule path_step_reachable)
  ultimately show ?case by simp
qed

lemma stopped_steps:
  assumes "rtranclp (path_step fo A h iv w) a b" and "snd (snd (snd a)) = None"
  shows "a = b"
  using assms
proof (induction rule: rtranclp_induct)
  case base
  show ?case by simp
next
  case (step y z)
  then have "a = y" by simp
  with step.hyps(2) step.prems show ?case
    by (cases a) (auto simp: path_step.simps)
qed

text \<open>
  One silent turn of the loop keeps the states of the queue entries among the states of
  the automaton, and with weights that are not negative no entry of the new queue is
  cheaper than the entry taken out.
\<close>

lemma apply_turn_reachable:
  assumes ne: "fst qc \<noteq> []"
    and rq: "\<forall>e \<in> set (fst qc). \<forall>s. item_state e = Some s \<longrightarrow> reachable A h s"
    and cont: "apply_turn fo A h opts w qc = Continue qc'"
  shows "\<forall>e \<in> set (fst qc'). \<forall>s. item_state e = Some s \<longrightarrow> reachable A h s"
proof
  fix e assume e: "e \<in> set (fst qc')"
  let ?m = "fst (heappop (fst qc))"
  have m: "\<forall>s. snd (snd (snd (item_config ?m))) = Some s \<longrightarrow> reachable A h s"
    using rq heappop_in [OF ne] by (simp add: item_config_parts)
  from apply_turn_sound [OF ne cont e]
  show "\<forall>s. item_state e = Some s \<longrightarrow> reachable A h s"
  proof
    assume "e \<in> set (snd (heappop (fst qc)))"
    then have "e \<in> set (fst qc)" using heappop_rest_subset by blast
    with rq show ?thesis by blast
  next
    assume "path_step fo A h (inverse opts) w (item_config ?m) (item_config e)"
    from path_step_reachable [OF this m] show ?thesis by (simp add: item_config_parts)
  qed
qed

lemma apply_turn_cost:
  assumes nn: "nonneg_weights A h"
    and ne: "fst qc \<noteq> []"
    and rq: "\<forall>e \<in> set (fst qc). \<forall>s. item_state e = Some s \<longrightarrow> reachable A h s"
    and cont: "apply_turn fo A h opts w qc = Continue qc'"
    and e: "e \<in> set (fst qc')"
  shows "item_cost (fst (heappop (fst qc))) \<le> item_cost e"
proof -
  let ?m = "fst (heappop (fst qc))"
  have m: "\<forall>s. snd (snd (snd (item_config ?m))) = Some s \<longrightarrow> reachable A h s"
    using rq heappop_in [OF ne] by (simp add: item_config_parts)
  from apply_turn_sound [OF ne cont e] show ?thesis
  proof
    assume "e \<in> set (snd (heappop (fst qc)))"
    then have "e \<in> set (fst qc)" using heappop_rest_subset by blast
    with ne show ?thesis by (rule heappop_cost_least)
  next
    assume "path_step fo A h (inverse opts) w (item_config ?m) (item_config e)"
    from path_step_cost [OF nn this m] show ?thesis by (simp add: item_config_parts)
  qed
qed

lemma apply_run_cost_sorted:
  assumes nn: "nonneg_weights A h"
    and "\<forall>e \<in> set (fst qc). c0 \<le> item_cost e"
    and "\<forall>e \<in> set (fst qc). \<forall>s. item_state e = Some s \<longrightarrow> reachable A h s"
  shows "sorted_wrt (\<lambda>a b. item_cost a \<le> item_cost b)
           (map fst (fst (apply_run fo A h opts w n qc))) \<and>
         (\<forall>y \<in> set (fst (apply_run fo A h opts w n qc)). c0 \<le> item_cost (fst y))"
  using assms(2,3)
proof (induction n arbitrary: qc c0)
  case 0
  show ?case by simp
next
  case (Suc n)
  obtain Q k where qc: "qc = (Q, k)" by (cases qc)
  show ?case
  proof (cases "Q = []")
    case True
    then show ?thesis by (simp add: qc apply_turn_def)
  next
    case False
    then have ne: "fst qc \<noteq> []" by (simp add: qc)
    let ?m = "fst (heappop Q)"
    have m_in: "?m \<in> set Q" using False by (rule heappop_in)
    have m_c0: "c0 \<le> item_cost ?m" using Suc.prems(1) m_in by (simp add: qc)
    have rest: "\<forall>e \<in> set (snd (heappop Q)). item_cost ?m \<le> item_cost e"
      using heappop_cost_least [OF False] heappop_rest_subset [of Q] by blast
    have rest_reach: "\<forall>e \<in> set (snd (heappop Q)). \<forall>s. item_state e = Some s \<longrightarrow> reachable A h s"
      using Suc.prems(2) heappop_rest_subset [of Q] by (auto simp: qc)
    from apply_turn_cases [OF ne, of w fo A h opts]
    consider
      (yield) "apply_turn fo A h opts w qc =
           Yield ?m (make_result fo opts (item_cost ?m) (item_output ?m)) (snd (heappop Q), k)"
    | (continue) new where
        "apply_turn fo A h opts w qc = Continue (snd (heappop Q) @ new, k + length new)"
    | (raise) e where "apply_turn fo A h opts w qc = Raise e"
      unfolding qc by auto
    then show ?thesis
    proof cases
      case yield
      let ?ys = "fst (apply_run fo A h opts w n (snd (heappop Q), k))"
      have ih: "sorted_wrt (\<lambda>a b. item_cost a \<le> item_cost b) (map fst ?ys) \<and>
         (\<forall>y \<in> set ?ys. item_cost ?m \<le> item_cost (fst y))"
        by (rule Suc.IH) (use rest rest_reach in simp_all)
      have eq: "fst (apply_run fo A h opts w (Suc n) qc) =
          (?m, make_result fo opts (item_cost ?m) (item_output ?m)) # ?ys"
        using yield by (simp split: prod.splits)
      have "\<forall>y \<in> set ?ys. c0 \<le> item_cost (fst y)"
        using ih m_c0 by (meson order_trans)
      with ih m_c0 show ?thesis unfolding eq by simp
    next
      case continue
      let ?qc1 = "(snd (heappop Q) @ new, k + length new)"
      have "\<forall>e \<in> set (fst ?qc1). item_cost ?m \<le> item_cost e"
        using apply_turn_cost [OF nn ne Suc.prems(2) continue] by (simp add: qc)
      moreover have "\<forall>e \<in> set (fst ?qc1). \<forall>s. item_state e = Some s \<longrightarrow> reachable A h s"
        using ne Suc.prems(2) continue by (rule apply_turn_reachable)
      ultimately have ih: "sorted_wrt (\<lambda>a b. item_cost a \<le> item_cost b)
           (map fst (fst (apply_run fo A h opts w n ?qc1))) \<and>
         (\<forall>y \<in> set (fst (apply_run fo A h opts w n ?qc1)). item_cost ?m \<le> item_cost (fst y))"
        by (rule Suc.IH)
      then have "\<forall>y \<in> set (fst (apply_run fo A h opts w n ?qc1)). c0 \<le> item_cost (fst y)"
        using m_c0 by (meson order_trans)
      with ih show ?thesis using continue by simp
    next
      case raise
      then show ?thesis by simp
    qed
  qed
qed

lemma apply_run_complete:
  assumes nn: "nonneg_weights A h"
    and flt: "\<not> obey_flags opts \<or> flag_filter fo (alphabet A) ou1"
    and ex: "\<exists>e \<in> set (fst qc). rtranclp (path_step fo A h (inverse opts) w) (item_config e)
                (c1, - int (length w), ou1, None)"
    and rq: "\<forall>e \<in> set (fst qc). \<forall>s. item_state e = Some s \<longrightarrow> reachable A h s"
  shows "\<forall>j < length (fst (apply_run fo A h opts w n qc)).
           c1 < item_cost (fst (fst (apply_run fo A h opts w n qc) ! j)) \<longrightarrow>
           (\<exists>i < j. item_config (fst (fst (apply_run fo A h opts w n qc) ! i)) =
                      (c1, - int (length w), ou1, None))"
  using ex rq
proof (induction n arbitrary: qc)
  case 0
  show ?case by simp
next
  case (Suc n)
  let ?f = "(c1, - int (length w), ou1, None :: sid option)"
  let ?R = "rtranclp (path_step fo A h (inverse opts) w)"
  obtain Q k where qc: "qc = (Q, k)" by (cases qc)
  from Suc.prems(1) obtain e where e: "e \<in> set Q" "?R (item_config e) ?f"
    by (auto simp: qc)
  then have False: "Q \<noteq> []" by auto
  then have ne: "fst qc \<noteq> []" by (simp add: qc)
  let ?m = "fst (heappop Q)"
  let ?rest = "snd (heappop Q)"
  have rest: "?rest = remove1 ?m Q" by (simp add: heappop_def)
  have e_reach: "\<forall>s. snd (snd (snd (item_config e))) = Some s \<longrightarrow> reachable A h s"
    using Suc.prems(2) e(1) by (simp add: qc item_config_parts)
  have e_cost: "item_cost e \<le> c1"
    using path_steps_cost [OF nn e(2) e_reach] by (simp add: item_config_def)
  have rest_reach: "\<forall>e \<in> set (fst (?rest, k)). \<forall>s. item_state e = Some s \<longrightarrow> reachable A h s"
    using Suc.prems(2) heappop_rest_subset [of Q] by (auto simp: qc)
  have m_cost: "item_cost ?m \<le> c1"
    using heappop_cost_least [OF False e(1)] e_cost by (rule order_trans)
  from apply_turn_cases [OF ne, of w fo A h opts]
  consider
    (yield) "item_state ?m = None"
      "apply_turn fo A h opts w qc =
         Yield ?m (make_result fo opts (item_cost ?m) (item_output ?m)) (?rest, k)"
  | (continue) new where
      "apply_turn fo A h opts w qc = Continue (?rest @ new, k + length new)"
  | (raise) x where "apply_turn fo A h opts w qc = Raise x"
    unfolding qc by auto
  then show ?case
  proof cases
    case yield
    let ?ys = "fst (apply_run fo A h opts w n (?rest, k))"
    have eq: "fst (apply_run fo A h opts w (Suc n) qc) =
          (?m, make_result fo opts (item_cost ?m) (item_output ?m)) # ?ys"
      using yield(2) by (simp split: prod.splits)
    show ?thesis
    proof (cases "e = ?m")
      case True
      have "item_config ?m = ?f"
        using stopped_steps [OF e(2)] yield(1) True by (simp add: item_config_def)
      then show ?thesis unfolding eq
        using m_cost by (auto simp: nth_Cons' item_config_def)
    next
      case ne_m: False
      with e(1) have "e \<in> set ?rest" by (simp add: rest)
      with e(2) have "\<exists>e \<in> set (fst (?rest, k)). ?R (item_config e) ?f" by auto
      then have ih: "\<forall>j < length ?ys. c1 < item_cost (fst (?ys ! j)) \<longrightarrow>
           (\<exists>i < j. item_config (fst (?ys ! i)) = ?f)"
        using rest_reach by (rule Suc.IH)
      show ?thesis unfolding eq
      proof (intro allI impI)
        fix j
        assume j: "j < length ((?m, make_result fo opts (item_cost ?m) (item_output ?m)) # ?ys)"
          and gt: "c1 < item_cost (fst (((?m, make_result fo opts (item_cost ?m) (item_output ?m)) # ?ys) ! j))"
        show "\<exists>i < j. item_config (fst (((?m, make_result fo opts (item_cost ?m) (item_output ?m)) # ?ys) ! i)) = ?f"
        proof (cases j)
          case 0
          with gt m_cost show ?thesis by simp
        next
          case (Suc j')
          with j gt ih obtain i' where "i' < j'" "item_config (fst (?ys ! i')) = ?f"
            by auto
          then show ?thesis unfolding Suc by (intro exI [of _ "Suc i'"]) simp
        qed
      qed
    qed
  next
    case continue
    let ?qc1 = "(?rest @ new, k + length new)"
    have "\<exists>e \<in> set (fst ?qc1). ?R (item_config e) ?f"
    proof (cases "e = ?m")
      case True
      from e(2) show ?thesis
      proof (cases rule: converse_rtranclpE)
        case base
        then have "item_config (fst (heappop (fst qc))) = ?f" using True by (simp add: qc)
        from apply_turn_accepting_yields [OF ne this flt, of h] continue show ?thesis by auto
      next
        case (step cfg)
        then have "path_step fo A h (inverse opts) w (item_config (fst (heappop (fst qc)))) cfg"
          using True by (simp add: qc)
        from apply_turn_complete [OF ne this continue] step(2) show ?thesis by auto
      qed
    next
      case False
      with e(1) have "e \<in> set ?rest" by (simp add: rest)
      with e(2) show ?thesis by auto
    qed
    moreover have "\<forall>e \<in> set (fst ?qc1). \<forall>s. item_state e = Some s \<longrightarrow> reachable A h s"
      using ne Suc.prems(2) continue by (rule apply_turn_reachable)
    ultimately have "\<forall>j < length (fst (apply_run fo A h opts w n ?qc1)).
           c1 < item_cost (fst (fst (apply_run fo A h opts w n ?qc1) ! j)) \<longrightarrow>
           (\<exists>i < j. item_config (fst (fst (apply_run fo A h opts w n ?qc1) ! i)) = ?f)"
      by (rule Suc.IH)
    then show ?thesis using continue by simp
  next
    case raise
    then show ?thesis by simp
  qed
qed

lemma apply_run_sound:
  assumes "\<forall>e \<in> set (fst qc). rtranclp (path_step fo A h (inverse opts) w)
              (0, 0, [], Some (initialstate A)) (item_config e)"
  shows "\<forall>y \<in> set (fst (apply_run fo A h opts w n qc)).
           accepting_path fo A h opts w (item_cost (fst y)) (item_output (fst y))"
  using assms
proof (induction n arbitrary: qc)
  case 0
  show ?case by simp
next
  case (Suc n)
  let ?R = "rtranclp (path_step fo A h (inverse opts) w)"
  let ?i = "(0, 0, [], Some (initialstate A)) :: config"
  obtain Q k where qc: "qc = (Q, k)" by (cases qc)
  show ?case
  proof (cases "Q = []")
    case True
    then show ?thesis by (simp add: qc apply_turn_def)
  next
    case False
    then have ne: "fst qc \<noteq> []" by (simp add: qc)
    let ?m = "fst (heappop Q)"
    let ?rest = "snd (heappop Q)"
    have m_in: "?m \<in> set Q" using False by (rule heappop_in)
    then have m_reach: "?R ?i (item_config ?m)" using Suc.prems by (simp add: qc)
    have rest_reach: "\<forall>e \<in> set ?rest. ?R ?i (item_config e)"
      using Suc.prems heappop_rest_subset [of Q] by (auto simp: qc)
    from apply_turn_cases [OF ne, of w fo A h opts]
    consider
      (yield) "item_state ?m = None" "item_negpos ?m = - int (length w)"
        "apply_turn fo A h opts w qc =
           Yield ?m (make_result fo opts (item_cost ?m) (item_output ?m)) (?rest, k)"
    | (continue) new where
        "apply_turn fo A h opts w qc = Continue (?rest @ new, k + length new)"
    | (raise) x where "apply_turn fo A h opts w qc = Raise x"
      unfolding qc by auto
    then show ?thesis
    proof cases
      case yield
      have "item_config ?m = (item_cost ?m, - int (length w), item_output ?m, None)"
        using yield(1,2) by (simp add: item_config_def)
      with m_reach apply_turn_yield_filter [OF ne yield(3)]
      have "accepting_path fo A h opts w (item_cost ?m) (item_output ?m)"
        by (simp add: accepting_path_def)
      moreover have "\<forall>y \<in> set (fst (apply_run fo A h opts w n (?rest, k))).
           accepting_path fo A h opts w (item_cost (fst y)) (item_output (fst y))"
        by (rule Suc.IH) (use rest_reach in simp)
      ultimately show ?thesis using yield(3) by (auto split: prod.splits)
    next
      case continue
      have "\<forall>e \<in> set (fst (?rest @ new, k + length new)). ?R ?i (item_config e)"
      proof
        fix e assume "e \<in> set (fst (?rest @ new, k + length new))"
        with apply_turn_sound [OF ne continue, of e]
        have "e \<in> set ?rest \<or>
              path_step fo A h (inverse opts) w (item_config ?m) (item_config e)"
          by (simp add: qc)
        then show "?R ?i (item_config e)"
          using rest_reach m_reach by (auto intro: rtranclp.rtrancl_into_rtrancl)
      qed
      then have "\<forall>y \<in> set (fst (apply_run fo A h opts w n (?rest @ new, k + length new))).
           accepting_path fo A h opts w (item_cost (fst y)) (item_output (fst y))"
        by (rule Suc.IH)
      then show ?thesis using continue by simp
    next
      case raise
      then show ?thesis by simp
    qed
  qed
qed

lemma two_paths_shape:
  "all_transitions (two_paths_heap w1 f1 w2 f2) s =
     (if s = 0 then [([''a'', ''x''], 0), ([''a'', ''y''], 1)] else [])"
  "trans_of (two_paths_heap w1 f1 w2 f2) 0 = \<lparr>targetstate = 1, label = [''a'', ''x''], weight = w1\<rparr>"
  "trans_of (two_paths_heap w1 f1 w2 f2) (Suc 0) = \<lparr>targetstate = 2, label = [''a'', ''y''], weight = w2\<rparr>"
  "finalweight (state_of (two_paths_heap w1 f1 w2 f2) (Suc 0)) = f1"
  "finalweight (state_of (two_paths_heap w1 f1 w2 f2) 2) = f2"
  by (simp_all add: two_paths_heap_def all_transitions_def add_transition_def Transition_init_def
      update_state_def State_init_def empty_heap_def set_union_def dict_get_def)

lemma two_paths_tokens:
  "tokenize_against_alphabet (alphabet two_paths_fst) ''a'' = [''a'']"
  by (simp add: two_paths_fst_def tokenize_against_alphabet_def tokenize_loop.simps
      longest_token_def slice_def)

lemma Fin_less [simp]: "Fin a < Fin b \<longleftrightarrow> a < b"
  by (auto simp: less_cost_def)

lemma Fin_zero [simp]: "Fin a + 0 = Fin a" "0 + Fin a = Fin a" "0 \<le> Fin a \<longleftrightarrow> 0 \<le> a"
  by (simp_all add: zero_cost_def)

lemma two_paths_final2:
  "finalweight (state_of (two_paths_heap w1 f1 w2 f2) (Suc (Suc 0))) = f2"
  using two_paths_shape(5) [of w1 f1 w2 f2] by (simp add: numeral_2_eq_2)

lemma two_paths_tokens':
  "tokenize_against_alphabet {''a'', ''x'', ''y''} ''a'' = [''a'']"
  using two_paths_tokens by (simp add: two_paths_fst_def)

text \<open>
  When \<open>self.states\<close> holds the initial state and the targets of the transitions of
  its members, it holds every state of the automaton, and it is enough that the weights
  of its members are not negative.
\<close>

lemma reachable_in_states:
  assumes "initialstate A \<in> states A"
    and "\<forall>s \<in> states A. \<forall>lt \<in> set (all_transitions h s).
           targetstate (trans_of h (snd lt)) \<in> states A"
    and "reachable A h s"
  shows "s \<in> states A"
  using assms(3)
proof (induction rule: reachable.induct)
  case initial
  show ?case by (rule assms(1))
next
  case (target s lt)
  with assms(2) show ?case by blast
qed

lemma nonneg_weights_states:
  assumes "initialstate A \<in> states A"
    and "\<forall>s \<in> states A. \<forall>lt \<in> set (all_transitions h s).
           targetstate (trans_of h (snd lt)) \<in> states A"
    and "\<forall>s \<in> states A. \<forall>lt \<in> set (all_transitions h s). 0 \<le> weight (trans_of h (snd lt))"
    and "\<forall>s \<in> states A \<inter> finalstates A. 0 \<le> finalweight (state_of h s)"
  shows "nonneg_weights A h"
  unfolding nonneg_weights_def
  using reachable_in_states [OF assms(1,2)] assms(3,4) by blast

lemma two_paths_beside_shape:
  "all_transitions (two_paths_beside_heap w1 f1 w2 f2) s =
     (if s = 0 then [([''a'', ''x''], 0), ([''a'', ''y''], 1)]
      else if s = 3 then [([''a''], 2)] else [])"
  "trans_of (two_paths_beside_heap w1 f1 w2 f2) 0 =
     \<lparr>targetstate = 1, label = [''a'', ''x''], weight = w1\<rparr>"
  "trans_of (two_paths_beside_heap w1 f1 w2 f2) (Suc 0) =
     \<lparr>targetstate = 2, label = [''a'', ''y''], weight = w2\<rparr>"
  "trans_of (two_paths_beside_heap w1 f1 w2 f2) 2 =
     \<lparr>targetstate = 3, label = [''a''], weight = Fin (- 1)\<rparr>"
  "finalweight (state_of (two_paths_beside_heap w1 f1 w2 f2) (Suc 0)) = f1"
  "finalweight (state_of (two_paths_beside_heap w1 f1 w2 f2) 2) = f2"
  "finalweight (state_of (two_paths_beside_heap w1 f1 w2 f2) (Suc (Suc 0))) = f2"
  by (simp_all add: two_paths_beside_heap_def two_paths_heap_def all_transitions_def
      add_transition_def Transition_init_def update_state_def State_init_def empty_heap_def
      set_union_def dict_get_def numeral_2_eq_2 numeral_3_eq_3)

lemma two_paths_beside_nonneg:
  assumes "0 \<le> w1" "0 \<le> f1" "0 \<le> w2" "0 \<le> f2"
  shows "nonneg_weights two_paths_fst (two_paths_beside_heap w1 f1 w2 f2)"
proof (rule nonneg_weights_states)
  show "initialstate two_paths_fst \<in> states two_paths_fst"
    by (simp add: two_paths_fst_def)
  show "\<forall>s \<in> states two_paths_fst.
          \<forall>lt \<in> set (all_transitions (two_paths_beside_heap w1 f1 w2 f2) s).
            targetstate (trans_of (two_paths_beside_heap w1 f1 w2 f2) (snd lt)) \<in>
              states two_paths_fst"
    by (auto simp: two_paths_fst_def two_paths_beside_shape)
  show "\<forall>s \<in> states two_paths_fst.
          \<forall>lt \<in> set (all_transitions (two_paths_beside_heap w1 f1 w2 f2) s).
            0 \<le> weight (trans_of (two_paths_beside_heap w1 f1 w2 f2) (snd lt))"
    using assms by (auto simp: two_paths_fst_def two_paths_beside_shape)
  show "\<forall>s \<in> states two_paths_fst \<inter> finalstates two_paths_fst.
          0 \<le> finalweight (state_of (two_paths_beside_heap w1 f1 w2 f2) s)"
    using assms by (auto simp: two_paths_fst_def two_paths_beside_shape)
qed

lemma two_paths_beside_run_ordered:
  "fst (FST_apply no_flags two_paths_fst (two_paths_beside_heap (Fin 2) 0 (Fin 1) 0)
          (default_options\<lparr>weights := True\<rparr>) ''a'' 6) =
     [((Fin 1, - 1, 3, [''y''], None), (Str ''y'', Some (Fin 1))),
      ((Fin 2, - 1, 4, [''x''], None), (Str ''x'', Some (Fin 2)))]"
  by (simp add: FST_apply_def two_paths_tokens' numeral_eq_Suc
      apply_turn_def heappop_def smallest_def item_less_def two_paths_fst_def
      two_paths_beside_shape [simplified numeral_eq_Suc]
      heappush_def Let_def make_result_def no_flags_def default_options_def
      follow_def label_in_def label_out_def first_sym_def last_sym_def)

text \<open>
  Claim C1, as the code has it. When no transition of a state of the automaton (the
  initial state and the states that can be reached from it) has a negative weight and no
  such state that is final has a negative final weight, the results of \<open>apply\<close> (and so
  of \<open>generate\<close> and \<open>analyze\<close>, for every word and every setting of the options)
  come in non-decreasing order of cost, after any number of turns of the loop: the
  yields are sorted by cost; every yield is the cost and output of an accepting path for
  the word; and when a result of cost above \<open>c1\<close> has been yielded, the result of
  every accepting path of cost \<open>c1\<close> has been yielded before it. What else is in the
  store, negative weights of other automata included, does not matter.
\<close>

theorem results_in_cost_order:
  assumes "nonneg_weights A h"
  shows "sorted_wrt (\<lambda>x y. item_cost x \<le> item_cost y)
           (map fst (fst (FST_apply fo A h opts word n))) \<and>
         (\<forall>y \<in> set (fst (FST_apply fo A h opts word n)).
            accepting_path fo A h opts (tokenize_against_alphabet (alphabet A) word)
              (item_cost (fst y)) (item_output (fst y)) \<and>
            snd y = make_result fo opts (item_cost (fst y)) (item_output (fst y))) \<and>
         (\<forall>c1 out1 j.
            accepting_path fo A h opts (tokenize_against_alphabet (alphabet A) word) c1 out1 \<and>
            j < length (fst (FST_apply fo A h opts word n)) \<and>
            c1 < item_cost (fst (fst (FST_apply fo A h opts word n) ! j)) \<longrightarrow>
            (\<exists>i < j. item_cost (fst (fst (FST_apply fo A h opts word n) ! i)) = c1 \<and>
                     item_output (fst (fst (FST_apply fo A h opts word n) ! i)) = out1))"
proof (intro conjI allI impI ballI)
  let ?w = "tokenize_against_alphabet (alphabet A) word"
  let ?qc = "([(0, 0, 0, [], Some (initialstate A))], 1) :: search"
  let ?ys = "fst (FST_apply fo A h opts word n)"
  have ys: "?ys = fst (apply_run fo A h opts ?w n ?qc)" by (simp add: FST_apply_def)
  have rq: "\<forall>e \<in> set (fst ?qc). \<forall>s. item_state e = Some s \<longrightarrow> reachable A h s"
    by (simp add: item_state_def reachable.initial)
  have c0: "\<forall>e \<in> set (fst ?qc). 0 \<le> item_cost e" by (simp add: item_cost_def)
  show "sorted_wrt (\<lambda>x y. item_cost x \<le> item_cost y) (map fst ?ys)"
    unfolding ys using apply_run_cost_sorted [OF assms c0 rq, of fo opts ?w n] by simp
  have ok: "counters_ok ?qc" by (simp add: counters_ok_def)
  have start: "\<forall>e \<in> set (fst ?qc). rtranclp (path_step fo A h (inverse opts) ?w)
              (0, 0, [], Some (initialstate A)) (item_config e)"
    by simp
  {
    fix y assume y: "y \<in> set ?ys"
    show "accepting_path fo A h opts ?w (item_cost (fst y)) (item_output (fst y))"
      using apply_run_sound [OF start, of n] y unfolding ys by blast
    show "snd y = make_result fo opts (item_cost (fst y)) (item_output (fst y))"
      using apply_run_yields_from [OF ok, of fo A h opts ?w n] y unfolding ys by blast
  }
  {
    fix c1 out1 j
    assume a: "accepting_path fo A h opts ?w c1 out1 \<and> j < length ?ys \<and>
               c1 < item_cost (fst (?ys ! j))"
    then have flt: "\<not> obey_flags opts \<or> flag_filter fo (alphabet A) out1"
      and ex: "\<exists>e \<in> set (fst ?qc). rtranclp (path_step fo A h (inverse opts) ?w) (item_config e)
                (c1, - int (length ?w), out1, None)"
      by (simp_all add: accepting_path_def)
    from apply_run_complete [OF assms flt ex rq, of n] a
    obtain i where "i < j" "item_config (fst (?ys ! i)) = (c1, - int (length ?w), out1, None)"
      unfolding ys by blast
    then show "\<exists>i < j. item_cost (fst (?ys ! i)) = c1 \<and> item_output (fst (?ys ! i)) = out1"
      by (auto simp: item_config_def)
  }
qed

theorem results_in_cost_order_witness:
  "nonneg_weights two_paths_fst (two_paths_beside_heap (Fin 2) 0 (Fin 1) 0) \<and>
   ([''a''], 2) \<in> set (all_transitions (two_paths_beside_heap (Fin 2) 0 (Fin 1) 0) 3) \<and>
   weight (trans_of (two_paths_beside_heap (Fin 2) 0 (Fin 1) 0) 2) = Fin (- 1) \<and>
   sorted_wrt (\<lambda>x y. item_cost x \<le> item_cost y)
     (map fst (fst (FST_apply no_flags two_paths_fst (two_paths_beside_heap (Fin 2) 0 (Fin 1) 0)
          (default_options\<lparr>weights := True\<rparr>) ''a'' 6))) \<and>
   map snd (fst (FST_apply no_flags two_paths_fst (two_paths_beside_heap (Fin 2) 0 (Fin 1) 0)
          (default_options\<lparr>weights := True\<rparr>) ''a'' 6)) =
     [(Str ''y'', Some (Fin 1)), (Str ''x'', Some (Fin 2))]"
proof -
  have nn: "nonneg_weights two_paths_fst (two_paths_beside_heap (Fin 2) 0 (Fin 1) 0)"
    by (rule two_paths_beside_nonneg) (simp_all add: zero_cost_def)
  have other: "([''a''], 2) \<in> set (all_transitions (two_paths_beside_heap (Fin 2) 0 (Fin 1) 0) 3)"
    "weight (trans_of (two_paths_beside_heap (Fin 2) 0 (Fin 1) 0) 2) = Fin (- 1)"
    by (simp_all add: two_paths_beside_shape)
  show ?thesis
    using results_in_cost_order [OF nn, of no_flags "default_options\<lparr>weights := True\<rparr>" "''a''" 6]
      nn other two_paths_beside_run_ordered
    by simp
qed

text \<open>
  The claim as stated fails when a weight is negative: with the path \<open>a:x\<close> of cost
  \<open>1 + 0\<close> and the path \<open>a:y\<close> of cost \<open>2 + (-2) = 0\<close>, \<open>generate("a")\<close> yields
  the result of cost 1 before the result of cost 0.
\<close>

theorem results_in_cost_order_counterexample:
  "results (generate no_flags two_paths_fst (two_paths_heap (Fin 1) 0 (Fin 2) (Fin (- 2)))
      (default_options\<lparr>weights := True\<rparr>) ''a'' 6) =
     [(Str ''x'', Some (Fin 1)), (Str ''y'', Some (Fin 0))] \<and>
   Fin 0 < Fin 1"
  by (simp add: results_def generate_def FST_apply_def two_paths_tokens' numeral_eq_Suc
      apply_turn_def heappop_def smallest_def item_less_def two_paths_fst_def two_paths_shape
      heappush_def Let_def make_result_def no_flags_def default_options_def two_paths_final2
      follow_def label_in_def label_out_def first_sym_def last_sym_def)

section \<open>Properties of the grammar compiler\<close>

lemma rlg_chain_undeclared:
  assumes "map_of statedict target = None"
    and "\<exists>x \<in> set ps. snd (snd x) = n - 1"
  shows "isl (rlg_chain statedict target wt n ps c fh)"
  using assms(2)
proof (induction ps arbitrary: c fh)
  case Nil
  then show ?case by simp
next
  case (Cons p ps)
  obtain ii oo idx where p: "p = (ii, oo, idx)" by (cases p)
  show ?case
  proof (cases "idx = n - 1")
    case True
    then show ?thesis using assms(1) by (simp add: p)
  next
    case False
    with Cons.prems have "\<exists>x \<in> set ps. snd (snd x) = n - 1" by (auto simp: p)
    then have "\<And>c fh. isl (rlg_chain statedict target wt n ps c fh)" by (rule Cons.IH)
    with False show ?thesis by (simp add: p split: prod.splits)
  qed
qed

lemma length_pad: "length xs \<le> n \<Longrightarrow> length (pad n xs) = n"
  by (simp add: pad_def)

lemma positions_last:
  assumes "0 < max (length i) (length ou)"
  shows "\<exists>x \<in> set (positions i ou). snd (snd x) = max (length i) (length ou) - 1"
proof -
  let ?n = "max (length i) (length ou)"
  have li: "length (pad ?n i) = ?n" and lo: "length (pad ?n ou) = ?n"
    by (simp_all add: length_pad)
  have len: "length (positions i ou) = ?n"
    by (simp add: positions_def li lo)
  have "positions i ou ! (?n - 1) = (pad ?n i ! (?n - 1), pad ?n ou ! (?n - 1), ?n - 1)"
    using assms by (simp add: positions_def li lo)
  moreover have "positions i ou ! (?n - 1) \<in> set (positions i ou)"
    using assms len by (intro nth_mem) simp
  ultimately show ?thesis by (metis snd_conv)
qed

lemma rlg_rule_undeclared:
  assumes "map_of statedict target = None" and "rule_tokens ms l \<noteq> Inr ([], [])"
  shows "isl (rlg_rule ms statedict lexstate fh (Rule l target wt))"
proof (cases "map_of statedict lexstate")
  case None
  then show ?thesis by (simp add: rlg_rule_def)
next
  case (Some currstate)
  show ?thesis
  proof (cases "rule_tokens ms l")
    case (Inl e)
    with Some show ?thesis by (simp add: rlg_rule_def)
  next
    case (Inr io)
    obtain i ou where io: "io = (i, ou)" by (cases io)
    with Inr assms(2) have "i \<noteq> [] \<or> ou \<noteq> []" by auto
    then have "0 < max (length i) (length ou)" by (auto simp: max_def)
    then have "\<exists>x \<in> set (positions i ou). snd (snd x) = max (length i) (length ou) - 1"
      by (rule positions_last)
    with assms(1) show ?thesis
      using Some Inr io by (simp add: rlg_rule_def rlg_chain_undeclared)
  qed
qed

lemma rlg_rules_undeclared:
  assumes "r \<in> set rs" and "\<And>fh. isl (rlg_rule ms statedict lexstate fh r)"
  shows "isl (rlg_rules ms statedict lexstate rs fh)"
  using assms(1)
proof (induction rs arbitrary: fh)
  case Nil
  then show ?case by simp
next
  case (Cons a rs)
  show ?case
  proof (cases "rlg_rule ms statedict lexstate fh a")
    case (Inl e)
    then show ?thesis by simp
  next
    case (Inr fh1)
    have "r \<noteq> a" using assms(2) [of fh] Inr by auto
    with Cons.prems have "r \<in> set rs" by simp
    then show ?thesis using Inr Cons.IH by simp
  qed
qed

lemma rlg_sets_undeclared:
  assumes "lexstate \<in> set names" and "map_of grammar lexstate = Some rules"
    and "\<And>fh. isl (rlg_rules ms statedict lexstate rules fh)"
  shows "isl (rlg_sets ms statedict grammar names fh)"
  using assms(1)
proof (induction names arbitrary: fh)
  case Nil
  then show ?case by simp
next
  case (Cons a names)
  show ?case
  proof (cases "a = lexstate")
    case True
    then show ?thesis using assms(2) assms(3) [of fh] by (auto split: sum.splits)
  next
    case False
    with Cons.prems have "lexstate \<in> set names" by simp
    then show ?thesis using Cons.IH by (auto split: option.splits sum.splits)
  qed
qed

lemma make_states_keys: "map fst (fst (make_states names h)) = names"
proof (induction names arbitrary: h)
  case Nil
  show ?case by simp
next
  case (Cons a names)
  obtain s h1 where a: "State_init None (Some a) h = (s, h1)" by (cases "State_init None (Some a) h")
  obtain d h2 where b: "make_states names h1 = (d, h2)" by (cases "make_states names h1")
  have "map fst d = names" using Cons [of h1] by (simp add: b)
  then show ?case by (simp add: a b)
qed

lemma match_token_None: "match_token c s = None \<longleftrightarrow> c = newline"
  by (auto simp: match_token_def newline_def quote_def backslash_def
      split: option.splits list.splits)

lemma rlg_scan_empty: "rlg_scan w = [] \<longleftrightarrow> set w \<subseteq> {newline}"
proof (induction w rule: rlg_scan.induct)
  case 1
  show ?case by (simp add: rlg_scan.simps)
next
  case (2 c s)
  show ?case
  proof (cases "match_token c s")
    case None
    then have "c = newline" by (simp add: match_token_None)
    with 2(1) [OF None] None show ?thesis by (simp add: rlg_scan.simps)
  next
    case (Some p)
    then have "c \<noteq> newline" using match_token_None [of c s] by auto
    with Some show ?thesis by (auto simp: rlg_scan.simps split: prod.splits)
  qed
qed

text \<open>
  Claim C9, as the code has it. \<open>rlg\<close> does not check the targets of the rules; the
  error is the \<open>KeyError\<close> of \<open>statedict[target]\<close> at the last position of a rule. So
  \<open>rlg\<close> fails during compilation for every grammar with a rule whose target is
  neither a key of the grammar nor \<open>"#"\<close>, when the rule is in a rule-set other than
  \<open>"#"\<close> and has at least one position (its token lists are not both empty). With the
  default tokenizer a string has no token only when it is non-empty and made of
  newlines.
\<close>

theorem rlg_undeclared_target:
  assumes "map_of grammar nm = Some rules" and "nm \<noteq> ''#''"
    and "Rule l target wt \<in> set rules"
    and "target \<notin> fst ` set grammar" and "target \<noteq> ''#''"
    and "rule_tokens multichar_symbols l \<noteq> Inr ([], [])"
  shows "isl (rlg grammar startsymbol multichar_symbols h) \<and>
         (rlg_tokenize None w = [] \<longleftrightarrow> w \<noteq> [] \<and> set w \<subseteq> {newline})"
proof
  show "rlg_tokenize None w = [] \<longleftrightarrow> w \<noteq> [] \<and> set w \<subseteq> {newline}"
    by (simp add: rlg_tokenize_def rlg_scan_empty)
next
  obtain newfst h0 where f: "FST_init None 0 {} h = (newfst, h0)" by (cases "FST_init None 0 {} h")
  let ?names = "remdups (map fst grammar @ [''#''])"
  obtain statedict h1 where m: "make_states ?names h0 = (statedict, h1)"
    by (cases "make_states ?names h0")
  have keys: "map fst statedict = ?names"
    using make_states_keys [of ?names h0] by (simp add: m)
  have "target \<notin> set (map fst statedict)"
    using assms(4,5) by (simp add: keys)
  then have none: "map_of statedict target = None"
    by (simp add: map_of_eq_None_iff)
  have "nm \<in> fst ` set grammar"
    using assms(1) by (meson domI domIff map_of_eq_None_iff)
  then have nm: "nm \<in> set (filter (\<lambda>x. x \<noteq> ''#'') (map fst statedict))"
    using assms(2) by (simp add: keys)
  have r: "\<And>fh. isl (rlg_rule multichar_symbols statedict nm fh (Rule l target wt))"
    using none assms(6) by (rule rlg_rule_undeclared)
  have rs: "\<And>fh. isl (rlg_rules multichar_symbols statedict nm rules fh)"
    using assms(3) r by (rule rlg_rules_undeclared)
  have sets: "\<And>fh. isl (rlg_sets multichar_symbols statedict grammar
                 (filter (\<lambda>x. x \<noteq> ''#'') (map fst statedict)) fh)"
    using nm assms(1) rs by (rule rlg_sets_undeclared)
  show "isl (rlg grammar startsymbol multichar_symbols h)"
    using sets by (auto simp: rlg_def f m split: option.splits)
qed

theorem rlg_undeclared_target_witness:
  "map_of [(''Start'', [Rule (Bare ''a'') ''Nowhere'' None])] ''Start'' =
     Some [Rule (Bare ''a'') ''Nowhere'' None] \<and>
   ''Start'' \<noteq> ''#'' \<and>
   Rule (Bare ''a'') ''Nowhere'' None \<in> set [Rule (Bare ''a'') ''Nowhere'' None] \<and>
   ''Nowhere'' \<notin> fst ` set [(''Start'', [Rule (Bare ''a'') ''Nowhere'' None])] \<and>
   ''Nowhere'' \<noteq> ''#'' \<and>
   rule_tokens None (Bare ''a'') = Inr ([''a''], [''a'']) \<and>
   isl (rlg [(''Start'', [Rule (Bare ''a'') ''Nowhere'' None])] ''Start'' None empty_heap)"
proof -
  let ?g = "[(''Start'', [Rule (Bare ''a'') ''Nowhere'' None])]"
  have t: "rule_tokens None (Bare ''a'') = Inr ([''a''], [''a''])"
    by (simp add: rule_tokens_def rlg_tokenize_def rlg_scan.simps match_token_def
        quote_def backslash_def newline_def)
  then have ne: "rule_tokens None (Bare ''a'') \<noteq> Inr ([], [])" by simp
  have a: "map_of ?g ''Start'' = Some [Rule (Bare ''a'') ''Nowhere'' None]"
    and b: "''Start'' \<noteq> ''#''"
    and c: "Rule (Bare ''a'') ''Nowhere'' None \<in> set [Rule (Bare ''a'') ''Nowhere'' None]"
    and d: "''Nowhere'' \<notin> fst ` set ?g" and e: "''Nowhere'' \<noteq> ''#''"
    by simp_all
  show ?thesis
    using rlg_undeclared_target [OF a b c d e ne, of "''Start''" empty_heap] t by simp
qed

text \<open>
  The claim as stated fails: the rules of a rule-set named \<open>"#"\<close> are never compiled,
  and a rule whose input is a newline has no position; in both cases \<open>rlg\<close> returns an
  automaton although the target of the rule is not declared.
\<close>

theorem rlg_undeclared_target_counterexample:
  "\<not> isl (rlg [(''#'', [Rule (Bare ''b'') ''Undefined'' None])] ''#'' None empty_heap) \<and>
   \<not> isl (rlg [(''Start'', [Rule (Bare [newline]) ''Nowhere'' None])] ''Start'' None empty_heap)"
proof
  show "\<not> isl (rlg [(''#'', [Rule (Bare ''b'') ''Undefined'' None])] ''#'' None empty_heap)"
    by (simp add: rlg_def FST_init_def State_init_def Let_def)
next
  have t: "rule_tokens None (Bare [newline]) = Inr ([], [])"
    by (simp add: rule_tokens_def rlg_tokenize_def rlg_scan.simps match_token_def
        quote_def backslash_def newline_def)
  have n: "''Start'' \<noteq> ''#''" by simp
  show "\<not> isl (rlg [(''Start'', [Rule (Bare [newline]) ''Nowhere'' None])] ''Start'' None empty_heap)"
    using n by (simp add: rlg_def FST_init_def State_init_def Let_def rlg_rule_def t positions_def
        pad_def)
qed


















end
